theory Spec2Isabelle
  imports Main
begin

section \<open>Results\<close>

text \<open>
  The seven outcomes of \<^verbatim>\<open>results\<close> (index.js, lines 12-35). The outcome \<^verbatim>\<open>None\<close> is
  written \<open>SPF_None\<close>, since \<open>None\<close> is the empty option of HOL.
\<close>

datatype result = SPF_None | Neutral | Pass | Fail | SoftFail | TempError | PermError

fun messages :: "result \<Rightarrow> string" where
  "messages SPF_None = ''Cannot assert whether or not the client host is authorized''"
| "messages Neutral = ''Domain owner has explicitly stated that he cannot or does not want to assert whether or not the IP address is authorized''"
| "messages Pass = ''Client is authorized to inject mail with the given identity''"
| "messages Fail = ''Client is *not* authorized to use the domain in the given identity''"
| "messages SoftFail = ''Domain believes the host is not authorized but is not willing to make that strong of a statement''"
| "messages TempError = ''Encountered a transient error while performing the check''"
| "messages PermError = ''Domain's published records could not be correctly interpreted''"

text \<open>
  \<^verbatim>\<open>results\<close> maps each outcome to its own name; \<open>result_named\<close> is the lookup
  \<^verbatim>\<open>_.has(results, name)\<close> of the constructor, on a name that may be \<^verbatim>\<open>undefined\<close>
  (\<open>None\<close>).
\<close>

fun result_named :: "string option \<Rightarrow> result option" where
  "result_named None = None"
| "result_named (Some n) =
     (if n = ''None'' then Some SPF_None
      else if n = ''Neutral'' then Some Neutral
      else if n = ''Pass'' then Some Pass
      else if n = ''Fail'' then Some Fail
      else if n = ''SoftFail'' then Some SoftFail
      else if n = ''TempError'' then Some TempError
      else if n = ''PermError'' then Some PermError
      else None)"

record SPFResult =
  result :: result
  message :: string
  mechanism :: string
  matched :: "string list"

text \<open>
  \<^verbatim>\<open>new SPFResult(result, message)\<close> for an outcome of \<^verbatim>\<open>results\<close>: an empty message is
  replaced by the outcome's default text; \<^verbatim>\<open>mechanism\<close> is \<^verbatim>\<open>"default"\<close> and \<^verbatim>\<open>matched\<close> is
  empty. A call without a message is a call with the empty one.
\<close>

definition new_SPFResult :: "result \<Rightarrow> string \<Rightarrow> SPFResult" where
  "new_SPFResult r msg =
     \<lparr> result = r,
       message = (if msg = [] then messages r else msg),
       mechanism = ''default'',
       matched = [] \<rparr>"

section \<open>Failures and the state of one SPF object\<close>

text \<open>
  The code throws either an \<^verbatim>\<open>SPFResult\<close> (a typed outcome) or any other error, of which
  only the message is read. \<open>OutOfFuel\<close> is not a value of the program: it is what the
  model answers when the recursion bound it is given is too small.
\<close>

datatype exn = Typed SPFResult | Untyped string

datatype 'a outcome = Return 'a | Throw exn | OutOfFuel

datatype rrtype = TXT | A | AAAA | MX

text \<open>
  The trace is a ghost field: the program does not have it. It lists, in order, every
  call of \<^verbatim>\<open>dns.resolve\<close> that was issued (with the budget flag and the value of the
  counter after its callback ran) and every lookup that \<^verbatim>\<open>resolveDNS\<close> refused before
  calling the resolver (with the value of the counter then).
\<close>

datatype event =
    Issued string rrtype bool nat
  | Refused string rrtype nat

record state =
  queryDNSCount :: nat
  warnings :: "string list"
  trace :: "event list"

record options =
  version :: string
  prefetch :: bool
  maxDNS :: nat

text \<open>
  \<open>version\<close> is the text that \<^verbatim>\<open>'v=spf' + this.options.version\<close> appends (\<^verbatim>\<open>1\<close> by
  default); \<open>maxDNS\<close> is a number of lookups, a natural number.
\<close>

definition default_options :: options where
  "default_options = \<lparr> version = ''1'', prefetch = False, maxDNS = 10 \<rparr>"

type_synonym 'a action = "state \<Rightarrow> 'a outcome \<times> state"

text \<open>\<^verbatim>\<open>await\<close>: run the first action; an exception ends the whole computation.\<close>

definition await :: "'a action \<Rightarrow> ('a \<Rightarrow> 'b action) \<Rightarrow> 'b action" where
  "await m k st =
     (case m st of
        (Return x, st') \<Rightarrow> k x st'
      | (Throw e, st') \<Rightarrow> (Throw e, st')
      | (OutOfFuel, st') \<Rightarrow> (OutOfFuel, st'))"

definition return :: "'a \<Rightarrow> 'a action" where
  "return x st = (Return x, st)"

definition throw :: "exn \<Rightarrow> 'a action" where
  "throw e st = (Throw e, st)"

definition throw_result :: "result \<Rightarrow> string \<Rightarrow> 'a action" where
  "throw_result r msg = throw (Typed (new_SPFResult r msg))"

section \<open>The collaborators\<close>

text \<open>
  What \<^verbatim>\<open>dns.resolve\<close> hands to its callback: an error, of which the code reads the
  message, or the records. A TXT answer is a list of records, each a list of chunks; an
  A or AAAA answer is a list of addresses; an MX answer is a list of priorities and
  exchange names.
\<close>

datatype answer =
    Chunks "string list list"
  | Strings "string list"
  | Exchanges "(nat \<times> string) list"

datatype ipkind = IPv4 | IPv6

text \<open>An address parsed by \<^verbatim>\<open>ipaddr.parse\<close>: its \<^verbatim>\<open>kind()\<close> and its \<^verbatim>\<open>toString()\<close>.\<close>

type_synonym addr = "ipkind \<times> string"

text \<open>A network parsed by \<^verbatim>\<open>ipaddr.parseCIDR\<close>: its address and its prefix length.\<close>

type_synonym cidr = "addr \<times> nat"

text \<open>
  A mechanism as \<^verbatim>\<open>spf-parse\<close> returns it. A term without a value has the empty value:
  the code reads an absent value only through \<^verbatim>\<open>mechanism.value || hostname\<close> and
  \<^verbatim>\<open>mechanism.value && ...\<close>, where \<^verbatim>\<open>undefined\<close> and the empty string behave alike.
  \<^verbatim>\<open>prefixdesc\<close> is absent on the version term.
\<close>

record parsed_mechanism =
  ptype :: string
  pvalue :: string
  pprefixdesc :: "string option"

text \<open>
  The parser's answer: \<^verbatim>\<open>valid\<close>, the messages (type and text; none when the field is
  absent) and the mechanisms.
\<close>

record parsed =
  valid :: bool
  pmessages :: "(string \<times> string) list"
  mechanisms :: "parsed_mechanism list"

text \<open>
  The libraries the code calls, as parameters. \<open>dns_resolve\<close> is a fixed zone: the same
  question has the same answer during one check. Its error is the message of the error
  object. \<open>spfParse\<close> may throw (the message of what it threw, on the left).
\<close>

record env =
  dns_resolve :: "string \<Rightarrow> rrtype \<Rightarrow> string + answer"
  spfParse :: "string \<Rightarrow> string + parsed"
  ip_isValid :: "string \<Rightarrow> bool"
  ip_parse :: "string \<Rightarrow> addr"
  parseCIDR :: "string \<Rightarrow> cidr option"
  addr_match :: "addr \<Rightarrow> cidr \<Rightarrow> bool"
  tld_isValid :: "string \<Rightarrow> bool"

section \<open>resolveDNS\<close>

text \<open>
  The test \<^verbatim>\<open>new RegExp('queryTxt (ENOTFOUND|ENODATA) ' + hostname).test(err.message)\<close>.
  The host name is part of the pattern, so a dot in it stands for any character but a
  line break. The model reads every other character of the host name as itself; that
  is what the pattern means for a host name of letters, digits, hyphens, underscores
  and dots (\<open>plain_hostname\<close>). The test is not anchored: it succeeds when the pattern
  matches at some position of the message.
\<close>

definition plain_char :: "char \<Rightarrow> bool" where
  "plain_char c =
     (c \<in> set ''abcdefghijklmnopqrstuvwxyzABCDEFGHIJKLMNOPQRSTUVWXYZ0123456789-_.'')"

definition plain_hostname :: "string \<Rightarrow> bool" where
  "plain_hostname h = list_all plain_char h"

fun match_host :: "string \<Rightarrow> string \<Rightarrow> bool" where
  "match_host [] s = True"
| "match_host (p # ps) [] = False"
| "match_host (p # ps) (c # cs) =
     ((if p = CHR ''.'' then c \<noteq> CHR 0x0A \<and> c \<noteq> CHR 0x0D else c = p) \<and> match_host ps cs)"

fun match_literal :: "string \<Rightarrow> string \<Rightarrow> string option" where
  "match_literal [] s = Some s"
| "match_literal (p # ps) [] = None"
| "match_literal (p # ps) (c # cs) = (if c = p then match_literal ps cs else None)"

definition match_code :: "string \<Rightarrow> string \<Rightarrow> string \<Rightarrow> bool" where
  "match_code code hostname s =
     (case match_literal (''queryTxt '' @ code @ '' '') s of
        None \<Rightarrow> False
      | Some rest \<Rightarrow> match_host hostname rest)"

definition match_here :: "string \<Rightarrow> string \<Rightarrow> bool" where
  "match_here hostname s =
     (match_code ''ENOTFOUND'' hostname s \<or> match_code ''ENODATA'' hostname s)"

fun notfound_test :: "string \<Rightarrow> string \<Rightarrow> bool" where
  "notfound_test hostname [] = match_here hostname []"
| "notfound_test hostname (c # cs) =
     (match_here hostname (c # cs) \<or> notfound_test hostname cs)"

text \<open>
  \<^verbatim>\<open>_.map(records, record => _.join(record, ''))\<close>, applied to a TXT answer. On an answer
  of strings it changes nothing (the characters of a string, joined, are the string);
  an exchange has no elements to join.
\<close>

fun join_records :: "answer \<Rightarrow> answer" where
  "join_records (Chunks rs) = Strings (map concat rs)"
| "join_records (Strings ss) = Strings ss"
| "join_records (Exchanges es) = Strings (map (\<lambda>e. []) es)"

text \<open>
  \<^verbatim>\<open>resolveDNS(hostname, rrtype, lookupLimit)\<close> (lines 151-182). The flag is \<open>None\<close> when
  the caller leaves it out.
\<close>

definition resolveDNS ::
  "env \<Rightarrow> options \<Rightarrow> string \<Rightarrow> rrtype \<Rightarrow> bool option \<Rightarrow> answer action" where
  "resolveDNS E opts hostname rrtype lookupLimit0 st =
     (let lookupLimit = (lookupLimit0 = None \<or> lookupLimit0 = Some True) in
      if lookupLimit \<and> maxDNS opts \<le> queryDNSCount st then
        (Throw (Typed (new_SPFResult PermError ''Limit of DNS lookups reached'')),
         st\<lparr>trace := trace st @ [Refused hostname rrtype (queryDNSCount st)]\<rparr>)
      else
        let n = (if lookupLimit then queryDNSCount st + 1 else queryDNSCount st);
            st' = st\<lparr>queryDNSCount := n,
                     trace := trace st @ [Issued hostname rrtype lookupLimit n]\<rparr>
        in case dns_resolve E hostname rrtype of
             Inl msg \<Rightarrow>
               if notfound_test hostname msg
               then (Throw (Typed (new_SPFResult SPF_None ''Domain does not exists'')), st')
               else (Throw (Typed (new_SPFResult TempError msg)), st')
           | Inr records \<Rightarrow>
               (Return (if rrtype = TXT then join_records records else records), st'))"

section \<open>Mechanisms\<close>

text \<open>
  The function \<^verbatim>\<open>mechanism.resolve\<close> that \<^verbatim>\<open>resolveSPF\<close> attaches to an \<^verbatim>\<open>a\<close>, \<^verbatim>\<open>mx\<close> or
  \<^verbatim>\<open>include\<close> mechanism, as data: the host name it will ask for
  (\<^verbatim>\<open>mechanism.value || hostname\<close>, or \<^verbatim>\<open>mechanism.value\<close>) and the \<^verbatim>\<open>rrtype\<close> it closes over.
\<close>

datatype resolver =
    ResolveA string rrtype
  | ResolveMX string rrtype
  | ResolveInclude string rrtype

record exch =
  priority :: nat
  exchange :: string
  exch_records :: answer

text \<open>
  A mechanism object: the parser's fields and the fields the code adds to it
  (\<^verbatim>\<open>resolve\<close>, \<^verbatim>\<open>address\<close>, \<^verbatim>\<open>records\<close>, \<^verbatim>\<open>exchanges\<close>, \<^verbatim>\<open>includes\<close>, \<^verbatim>\<open>evaluated\<close>), each
  absent until it is assigned. The selector of \<^verbatim>\<open>includes\<close> is written \<open>includes'\<close>.
\<close>

datatype mechanism = Mechanism
  (mtype: string)
  (mvalue: string)
  (prefixdesc: "string option")
  (resolve: "resolver option")
  (address: "cidr option")
  (records: "answer option")
  (exchanges: "exch list option")
  (includes': "mechanism list option")
  (evaluated: "SPFResult option")

definition mechanism_of :: "parsed_mechanism \<Rightarrow> mechanism" where
  "mechanism_of pm =
     Mechanism (ptype pm) (pvalue pm) (pprefixdesc pm) None None None None None None"

fun set_value :: "string \<Rightarrow> mechanism \<Rightarrow> mechanism" where
  "set_value v (Mechanism t _ p r a rs es incs ev) = Mechanism t v p r a rs es incs ev"

fun set_resolve :: "resolver \<Rightarrow> mechanism \<Rightarrow> mechanism" where
  "set_resolve r (Mechanism t v p _ a rs es incs ev) = Mechanism t v p (Some r) a rs es incs ev"

fun set_address :: "cidr \<Rightarrow> mechanism \<Rightarrow> mechanism" where
  "set_address a (Mechanism t v p r _ rs es incs ev) = Mechanism t v p r (Some a) rs es incs ev"

fun set_records :: "answer \<Rightarrow> mechanism \<Rightarrow> mechanism" where
  "set_records rs (Mechanism t v p r a _ es incs ev) = Mechanism t v p r a (Some rs) es incs ev"

fun set_exchanges :: "exch list \<Rightarrow> mechanism \<Rightarrow> mechanism" where
  "set_exchanges es (Mechanism t v p r a rs _ incs ev) = Mechanism t v p r a rs (Some es) incs ev"

fun set_includes :: "mechanism list \<Rightarrow> mechanism \<Rightarrow> mechanism" where
  "set_includes incs (Mechanism t v p r a rs es _ ev) = Mechanism t v p r a rs es (Some incs) ev"

fun set_evaluated :: "SPFResult \<Rightarrow> mechanism \<Rightarrow> mechanism" where
  "set_evaluated ev (Mechanism t v p r a rs es incs _) = Mechanism t v p r a rs es incs (Some ev)"

section \<open>resolveMX\<close>

text \<open>
  The loop of lines 144-146: an address lookup for each exchange, outside the budget
  (\<^verbatim>\<open>lookupLimit = false\<close>).
\<close>

fun resolve_exchanges ::
  "env \<Rightarrow> options \<Rightarrow> rrtype \<Rightarrow> (nat \<times> string) list \<Rightarrow> exch list action" where
  "resolve_exchanges E opts rrtype [] = return []"
| "resolve_exchanges E opts rrtype ((p, x) # es) =
     await (resolveDNS E opts x rrtype (Some False)) (\<lambda>recs.
     await (resolve_exchanges E opts rrtype es) (\<lambda>rest.
     return (\<lparr> priority = p, exchange = x, exch_records = recs \<rparr> # rest)))"

text \<open>
  \<^verbatim>\<open>resolveMX(hostname, rrtype)\<close> (lines 133-149). \<^verbatim>\<open>_.sortBy\<close> is a stable sort, as
  \<open>sort_key\<close> is. Node answers an MX question with exchanges; on an answer of another
  shape the code would read \<^verbatim>\<open>exchange\<close> of a string, and the model stops with an
  error that is not an \<^verbatim>\<open>SPFResult\<close>.
\<close>

definition resolveMX :: "env \<Rightarrow> options \<Rightarrow> string \<Rightarrow> rrtype \<Rightarrow> exch list action" where
  "resolveMX E opts hostname rrtype =
     await (resolveDNS E opts hostname MX None) (\<lambda>exchanges.
       case exchanges of
         Exchanges es \<Rightarrow>
           if maxDNS opts \<le> length es then
             throw_result PermError ''Limit of DNS lookups reached when processing MX mechanism''
           else
             await (resolve_exchanges E opts rrtype es) (\<lambda>xs.
             return (sort_key priority xs))
       | _ \<Rightarrow> throw (Untyped ''exchange of a record that is not an MX record''))"

section \<open>resolveSPF\<close>

definition startsWith :: "string \<Rightarrow> string \<Rightarrow> bool" where
  "startsWith s t = (take (length t) s = t)"

text \<open>\<^verbatim>\<open>/[^\x00-\x7f]/.test(record)\<close>\<close>

definition non_ascii :: "string \<Rightarrow> bool" where
  "non_ascii s = list_ex (\<lambda>c. 127 < (of_char c :: nat)) s"

text \<open>
  A TXT answer after \<^verbatim>\<open>resolveDNS\<close> joined it is a list of strings; \<^verbatim>\<open>resolveDNS\<close> never
  returns another shape for a TXT question.
\<close>

fun strings_of :: "answer \<Rightarrow> string list" where
  "strings_of (Strings ss) = ss"
| "strings_of (Chunks rs) = map concat rs"
| "strings_of (Exchanges es) = map (\<lambda>e. []) es"

text \<open>Lines 256-268: the default prefix length and \<^verbatim>\<open>ipaddr.parseCIDR\<close>.\<close>

definition resolve_ip :: "env \<Rightarrow> mechanism \<Rightarrow> mechanism action" where
  "resolve_ip E m =
     (if mtype m = ''ip4'' \<or> mtype m = ''ip6'' then
        let m1 = (if CHR ''/'' \<notin> set (mvalue m)
                  then set_value (mvalue m @ (if mtype m = ''ip4'' then ''/32'' else ''/128'')) m
                  else m)
        in case parseCIDR E (mvalue m1) of
             None \<Rightarrow> throw_result PermError (''Malformed \"'' @ mtype m @ ''\" address'')
           | Some a \<Rightarrow> return (set_address a m1)
      else return m)"

text \<open>Lines 244-254 and 270-274: the resolution step an \<^verbatim>\<open>a\<close>, \<^verbatim>\<open>mx\<close> or \<^verbatim>\<open>include\<close> gets.\<close>

definition attach_a_mx :: "string \<Rightarrow> rrtype \<Rightarrow> mechanism \<Rightarrow> mechanism" where
  "attach_a_mx hostname rrtype m =
     (let h = (if mvalue m = [] then hostname else mvalue m);
          m1 = (if mtype m = ''a'' then set_resolve (ResolveA h rrtype) m else m)
      in if mtype m1 = ''mx'' then set_resolve (ResolveMX h rrtype) m1 else m1)"

definition attach_include :: "rrtype \<Rightarrow> mechanism \<Rightarrow> mechanism" where
  "attach_include rrtype m =
     (if mtype m = ''include'' then set_resolve (ResolveInclude (mvalue m) rrtype) m else m)"

text \<open>
  Lines 187-222: the TXT lookup, the version filter, the checks of the one record
  (\<open>fetch_policy\<close>) and of the parser's answer (\<open>check_parsed\<close>, lines 208-222). It
  returns the parser's mechanisms.
\<close>

definition add_warnings :: "string list \<Rightarrow> unit action" where
  "add_warnings ws st = (Return (), st\<lparr>warnings := warnings st @ ws\<rparr>)"

definition messages_of_type :: "string \<Rightarrow> parsed \<Rightarrow> string list" where
  "messages_of_type t parsed = map snd (filter (\<lambda>m. fst m = t) (pmessages parsed))"

definition check_parsed :: "parsed \<Rightarrow> parsed_mechanism list action" where
  "check_parsed parsed =
     (if \<not> valid parsed then
        throw_result PermError ''There shouldn't be any syntax errors''
      else if messages_of_type ''error'' parsed \<noteq> [] then
        throw_result PermError (hd (messages_of_type ''error'' parsed))
      else
        await (add_warnings (messages_of_type ''warning'' parsed)) (\<lambda>u.
        return (mechanisms parsed)))"

definition fetch_policy :: "env \<Rightarrow> options \<Rightarrow> string \<Rightarrow> parsed_mechanism list action" where
  "fetch_policy E opts hostname =
     await (resolveDNS E opts hostname TXT None) (\<lambda>answer.
       let records = filter (\<lambda>record. startsWith record (''v=spf'' @ version opts @ '' ''))
                       (strings_of answer)
       in if length records = 0 then
            throw_result SPF_None ''Assume that the domain makes no SPF declarations''
          else if 1 < length records then
            throw_result PermError ''There should be exactly one record remaining''
          else if non_ascii (last records) then
            throw_result PermError
              ''Character content of the record should be encoded as US-ASCII''
          else
            (case spfParse E (last records) of
               Inl msg \<Rightarrow> throw (Untyped msg)
             | Inr parsed \<Rightarrow> check_parsed parsed))"

text \<open>
  Lines 244-274, what the loop does to a mechanism that is not a redirect before the
  prefetch: the steps are in the order of the source.
\<close>

definition prepare :: "env \<Rightarrow> string \<Rightarrow> rrtype \<Rightarrow> parsed_mechanism \<Rightarrow> mechanism action" where
  "prepare E hostname rrtype pm =
     await (resolve_ip E (attach_a_mx hostname rrtype (mechanism_of pm))) (\<lambda>m1.
     return (attach_include rrtype m1))"

definition is_redirect :: "parsed_mechanism \<Rightarrow> bool" where
  "is_redirect pm = (ptype pm = ''redirect'')"

definition is_all :: "mechanism \<Rightarrow> bool" where
  "is_all m = (mtype m = ''all'')"

text \<open>Line 225: \<^verbatim>\<open>_.some(parsed.mechanisms, ['type', 'all'])\<close>.\<close>

definition has_catchAll :: "parsed_mechanism list \<Rightarrow> bool" where
  "has_catchAll ms = list_ex (\<lambda>m. ptype m = ''all'') ms"

text \<open>
  \<^verbatim>\<open>resolveSPF(hostname, rrtype)\<close> (lines 184-290), its loop over the mechanisms (lines
  230-287) and a call of \<^verbatim>\<open>mechanism.resolve()\<close> followed by \<^verbatim>\<open>_.assign\<close>. The first
  argument after the options bounds the depth of the recursion: \<open>resolveSPF\<close> answers
  \<open>OutOfFuel\<close> at depth 0.
\<close>

fun resolveSPF :: "env \<Rightarrow> options \<Rightarrow> nat \<Rightarrow> string \<Rightarrow> rrtype \<Rightarrow> mechanism list action"
  and resolve_loop ::
    "env \<Rightarrow> options \<Rightarrow> nat \<Rightarrow> string \<Rightarrow> rrtype \<Rightarrow> bool \<Rightarrow> parsed_mechanism list \<Rightarrow>
     mechanism list \<Rightarrow> mechanism list action"
  and run_resolve :: "env \<Rightarrow> options \<Rightarrow> nat \<Rightarrow> mechanism \<Rightarrow> mechanism action"
where
  "resolveSPF E opts 0 hostname rrtype = (\<lambda>st. (OutOfFuel, st))"
| "resolveSPF E opts (Suc n) hostname rrtype =
     await (fetch_policy E opts hostname) (\<lambda>ms.
     resolve_loop E opts n hostname rrtype (has_catchAll ms) ms [])"
| "resolve_loop E opts n hostname rrtype catchAll [] resolved = return resolved"
| "resolve_loop E opts n hostname rrtype catchAll (pm # ms) resolved =
     (if is_redirect pm then
        (if \<not> catchAll then
           await (resolveSPF E opts n (pvalue pm) rrtype) (\<lambda>rs.
           resolve_loop E opts n hostname rrtype catchAll ms (resolved @ rs))
         else resolve_loop E opts n hostname rrtype catchAll ms resolved)
      else
        await (prepare E hostname rrtype pm) (\<lambda>m2.
        await (if prefetch opts \<and> resolve m2 \<noteq> None
               then run_resolve E opts n m2 else return m2) (\<lambda>m3.
        if is_all m3 then return (resolved @ [m3])
        else resolve_loop E opts n hostname rrtype catchAll ms (resolved @ [m3]))))"
| "run_resolve E opts n m =
     (case resolve m of
        None \<Rightarrow> return m
      | Some (ResolveA h rrtype) \<Rightarrow>
          await (resolveDNS E opts h rrtype None) (\<lambda>recs. return (set_records recs m))
      | Some (ResolveMX h rrtype) \<Rightarrow>
          await (resolveMX E opts h rrtype) (\<lambda>xs. return (set_exchanges xs m))
      | Some (ResolveInclude h rrtype) \<Rightarrow>
          await (resolveSPF E opts n h rrtype) (\<lambda>incs. return (set_includes incs m)))"

section \<open>match\<close>

text \<open>\<^verbatim>\<open>_.includes(records, address)\<close>: only a string of the array can be the address.\<close>

fun answer_includes :: "answer \<Rightarrow> string \<Rightarrow> bool" where
  "answer_includes (Strings ss) a = (a \<in> set ss)"
| "answer_includes (Chunks rs) a = False"
| "answer_includes (Exchanges es) a = False"

definition is_include :: "mechanism \<Rightarrow> bool" where
  "is_include m = (mtype m = ''include'')"

text \<open>
  \<^verbatim>\<open>match(mechanism, addr)\<close> (lines 463-509). \<^verbatim>\<open>evaluateInclude\<close> calls it without an
  address (\<open>None\<close>). Reading a field of \<^verbatim>\<open>undefined\<close> is a \<^verbatim>\<open>TypeError\<close>: an error that
  is not an \<^verbatim>\<open>SPFResult\<close>, with a message that the engine chooses and the model writes
  in its own words.
\<close>

definition match :: "env \<Rightarrow> options \<Rightarrow> mechanism \<Rightarrow> addr option \<Rightarrow> bool action" where
  "match E opts m addr =
     (if mtype m = ''version'' then
        (if mvalue m \<noteq> ''spf'' @ version opts
         then throw_result PermError (''Version \"'' @ mvalue m @ ''\" not supported'')
         else return False)
      else if mtype m = ''a'' then
        (case addr of
           None \<Rightarrow> throw (Untyped ''TypeError: addr is undefined'')
         | Some a \<Rightarrow>
             return (case records m of None \<Rightarrow> False | Some rs \<Rightarrow> answer_includes rs (snd a)))
      else if mtype m = ''mx'' then
        (case exchanges m of
           None \<Rightarrow> throw (Untyped ''TypeError: mechanism.exchanges is undefined'')
         | Some [] \<Rightarrow> return False
         | Some (x # xs) \<Rightarrow>
             (case addr of
                None \<Rightarrow> throw (Untyped ''TypeError: addr is undefined'')
              | Some a \<Rightarrow>
                  return (list_ex (\<lambda>e. answer_includes (exch_records e) (snd a)) (x # xs))))
      else if mtype m = ''ip4'' \<or> mtype m = ''ip6'' then
        (case (addr, address m) of
           (Some a, Some c) \<Rightarrow>
             if fst a \<noteq> fst (fst c) then return False else return (addr_match E a c)
         | _ \<Rightarrow> throw (Untyped ''TypeError: addr or mechanism.address is undefined''))
      else if mtype m = ''include'' then
        (case evaluated m of
           None \<Rightarrow> throw (Untyped ''TypeError: mechanism.evaluated is undefined'')
         | Some ev \<Rightarrow>
             if result ev = SPF_None
             then throw_result PermError (''Validation for \"include:'' @ mvalue m @ ''\" missed'')
             else return (result ev = Pass))
      else if mtype m = ''all'' then return True
      else throw_result PermError (''Mechanism \"'' @ mtype m @ ''\" not supported''))"

section \<open>evaluate\<close>

text \<open>
  \<^verbatim>\<open>_.merge(dst, src)\<close> on two arrays of strings: every index of the source overwrites
  that index of the destination.
\<close>

definition merge :: "string list \<Rightarrow> string list \<Rightarrow> string list" where
  "merge dst src = src @ drop (length src) dst"

text \<open>
  Lines 354-363 (and 444-453): the result of a match. \<^verbatim>\<open>new SPFResult(name)\<close> throws a
  \<^verbatim>\<open>TypeError\<close> when the name is not one of \<^verbatim>\<open>results\<close>.
\<close>

definition matched_result :: "mechanism \<Rightarrow> SPFResult action" where
  "matched_result m =
     (case result_named (prefixdesc m) of
        None \<Rightarrow>
          throw (Untyped (''Result \"'' @
            (case prefixdesc m of None \<Rightarrow> ''undefined'' | Some n \<Rightarrow> n) @ ''\" not found''))
      | Some r \<Rightarrow>
          let res = (new_SPFResult r [])\<lparr>mechanism := mtype m, matched := [mtype m]\<rparr>
          in if is_include m then
               (case evaluated m of
                  None \<Rightarrow> throw (Untyped ''TypeError: mechanism.evaluated is undefined'')
                | Some ev \<Rightarrow> return (res\<lparr>matched := merge (matched res) (matched ev)\<rparr>))
             else return res)"

definition lazy_resolve :: "env \<Rightarrow> options \<Rightarrow> nat \<Rightarrow> mechanism \<Rightarrow> mechanism action" where
  "lazy_resolve E opts n m =
     (if \<not> prefetch opts \<and> resolve m \<noteq> None then run_resolve E opts n m else return m)"

text \<open>
  \<^verbatim>\<open>evaluate(mechanisms, addr)\<close> (lines 339-370), with the bound on the depth of the
  recursion as third argument.
\<close>

fun evaluate :: "env \<Rightarrow> options \<Rightarrow> nat \<Rightarrow> mechanism list \<Rightarrow> addr \<Rightarrow> SPFResult action" where
  "evaluate E opts 0 ms addr = (\<lambda>st. (OutOfFuel, st))"
| "evaluate E opts (Suc n) [] addr = return (new_SPFResult Neutral [])"
| "evaluate E opts (Suc n) (m # ms) addr =
     await (lazy_resolve E opts n m) (\<lambda>m1.
     await (if is_include m1 then
              (case includes' m1 of
                 None \<Rightarrow> throw (Untyped ''TypeError: mechanisms is undefined'')
               | Some incs \<Rightarrow>
                   await (evaluate E opts n incs addr) (\<lambda>r. return (set_evaluated r m1)))
            else return m1) (\<lambda>m2.
     await (match E opts m2 (Some addr)) (\<lambda>b.
     if b then matched_result m2 else evaluate E opts (Suc n) ms addr)))"

section \<open>check\<close>

text \<open>\<^verbatim>\<open>try { ... } catch (err) { ... }\<close>\<close>

definition catch :: "'a action \<Rightarrow> (exn \<Rightarrow> 'a action) \<Rightarrow> 'a action" where
  "catch m h st =
     (case m st of
        (Throw e, st') \<Rightarrow> h e st'
      | (Return x, st') \<Rightarrow> (Return x, st')
      | (OutOfFuel, st') \<Rightarrow> (OutOfFuel, st'))"

text \<open>\<^verbatim>\<open>getMechanisms(rrtype)\<close> (lines 294-314), on the object's domain.\<close>

definition getMechanisms ::
  "env \<Rightarrow> options \<Rightarrow> nat \<Rightarrow> string \<Rightarrow> rrtype \<Rightarrow> mechanism list action" where
  "getMechanisms E opts n domain rrtype =
     await (catch (resolveSPF E opts n domain rrtype)
              (\<lambda>err. case err of
                 Typed r \<Rightarrow> throw err
               | Untyped msg \<Rightarrow> throw_result TempError msg)) (\<lambda>ms.
     if length ms = 0 then throw_result TempError ''No mechanisms found''
     else return ms)"

text \<open>The handler of \<^verbatim>\<open>check\<close> and of \<^verbatim>\<open>checkInclude\<close> (lines 330-336 and 386-392).\<close>

definition to_result :: "exn \<Rightarrow> SPFResult action" where
  "to_result err =
     (case err of
        Typed r \<Rightarrow> return r
      | Untyped msg \<Rightarrow> return (new_SPFResult PermError msg))"

text \<open>\<^verbatim>\<open>check(ip)\<close> (lines 316-337) of an object with the given domain.\<close>

definition check :: "env \<Rightarrow> options \<Rightarrow> nat \<Rightarrow> string \<Rightarrow> string \<Rightarrow> SPFResult action" where
  "check E opts n domain ip =
     (if \<not> ip_isValid E ip then
        return (new_SPFResult SPF_None ''Malformed IP for comparison'')
      else if \<not> tld_isValid E domain then
        return (new_SPFResult SPF_None ''No SPF record can be found on malformed domain'')
      else
        let addr = ip_parse E ip in
        catch (await (getMechanisms E opts n domain (if fst addr = IPv4 then A else AAAA))
                 (\<lambda>ms. evaluate E opts n ms addr))
              to_result)"

text \<open>The fields that the constructor sets (lines 110-111) on a new object.\<close>

definition SPF_new :: state where
  "SPF_new = \<lparr> queryDNSCount = 0, warnings = [], trace = [] \<rparr>"

section \<open>checkInclude\<close>

text \<open>\<^verbatim>\<open>toLowerCase\<close>, on the letters of ASCII.\<close>

definition lower_char :: "char \<Rightarrow> char" where
  "lower_char c =
     (case map_of (zip ''ABCDEFGHIJKLMNOPQRSTUVWXYZ'' ''abcdefghijklmnopqrstuvwxyz'') c of
        None \<Rightarrow> c
      | Some d \<Rightarrow> d)"

definition toLowerCase :: "string \<Rightarrow> string" where
  "toLowerCase s = map lower_char s"

text \<open>Line 413: the direct match of an include with the required domain.\<close>

definition direct_match :: "string \<Rightarrow> mechanism \<Rightarrow> bool" where
  "direct_match domain m = (mvalue m \<noteq> [] \<and> toLowerCase (mvalue m) = toLowerCase domain)"

text \<open>
  Lines 420-432: the resolution step inside \<^verbatim>\<open>try\<close>. The answer is \<open>None\<close> when the
  handler runs \<^verbatim>\<open>continue\<close> (a thrown \<^verbatim>\<open>SPFResult\<close> with the outcome None); another
  \<^verbatim>\<open>SPFResult\<close> is thrown again; an error that is not an \<^verbatim>\<open>SPFResult\<close> is dropped and the
  loop body goes on with the mechanism as it was.
\<close>

definition try_resolve :: "env \<Rightarrow> options \<Rightarrow> nat \<Rightarrow> mechanism \<Rightarrow> mechanism option action" where
  "try_resolve E opts n m =
     (if \<not> prefetch opts \<and> resolve m \<noteq> None then
        catch (await (run_resolve E opts n m) (\<lambda>m1. return (Some m1)))
          (\<lambda>err. case err of
             Typed r \<Rightarrow> if result r = SPF_None then return None else throw err
           | Untyped msg \<Rightarrow> return (Some m))
      else return (Some m))"

text \<open>Lines 439-443: the test of \<^verbatim>\<open>mechanism.evaluated\<close> and the call of \<^verbatim>\<open>match\<close>.\<close>

definition match_evaluated :: "env \<Rightarrow> options \<Rightarrow> mechanism \<Rightarrow> bool action" where
  "match_evaluated E opts m =
     (case evaluated m of
        None \<Rightarrow> throw (Untyped ''TypeError: mechanism.evaluated is undefined'')
      | Some ev \<Rightarrow>
          if result ev = SPF_None
          then throw_result PermError (''Validation for \"include:'' @ mvalue m @ ''\" missed'')
          else match E opts m None)"

text \<open>
  \<^verbatim>\<open>evaluateInclude(mechanisms, domain, includeMechanisms)\<close> (lines 402-460) and its
  second loop (lines 418-455). The array \<^verbatim>\<open>includeMechanisms\<close> is a list; a call without
  it passes the empty list. The callee pushes the includes of \<^verbatim>\<open>mechanisms\<close> on the array
  it is given, and the caller goes on with that array: in \<open>include_loop\<close> the list after
  the recursive call is the slice with those includes appended. The loop index goes on
  from \<open>i + 1\<close> in the new list, as in the source. The first argument after the options
  bounds the number of calls.
\<close>

fun evaluateInclude ::
    "env \<Rightarrow> options \<Rightarrow> nat \<Rightarrow> mechanism list \<Rightarrow> string \<Rightarrow> mechanism list \<Rightarrow> SPFResult action"
  and include_loop ::
    "env \<Rightarrow> options \<Rightarrow> nat \<Rightarrow> string \<Rightarrow> mechanism list \<Rightarrow> nat \<Rightarrow> SPFResult action"
where
  "evaluateInclude E opts 0 ms domain arr = (\<lambda>st. (OutOfFuel, st))"
| "evaluateInclude E opts (Suc n) ms domain arr =
     (let includeMechanisms = arr @ filter is_include ms
      in if length includeMechanisms = 0 then return (new_SPFResult Fail [])
         else if list_ex (direct_match domain) includeMechanisms
         then return (new_SPFResult Pass [])
         else include_loop E opts n domain includeMechanisms 0)"
| "include_loop E opts 0 domain l i = (\<lambda>st. (OutOfFuel, st))"
| "include_loop E opts (Suc n) domain l i =
     (if \<not> i < length l then return (new_SPFResult Fail [])
      else
        await (try_resolve E opts n (l ! i)) (\<lambda>r.
        case r of
          None \<Rightarrow> include_loop E opts n domain l (Suc i)
        | Some m1 \<Rightarrow>
            await (if is_include m1 then
                     (case includes' m1 of
                        None \<Rightarrow> throw (Untyped ''TypeError: mechanisms is undefined'')
                      | Some incs \<Rightarrow>
                          await (evaluateInclude E opts n incs domain (drop (Suc i) l)) (\<lambda>ev.
                          return (set_evaluated ev m1,
                                  drop (Suc i) l @ filter is_include incs)))
                   else return (m1, l)) (\<lambda>(m2, l2).
            await (match_evaluated E opts m2) (\<lambda>b.
            if b then matched_result m2
            else include_loop E opts n domain l2 (Suc i)))))"

text \<open>\<^verbatim>\<open>checkInclude(requiredDomain)\<close> (lines 378-393) of an object with the given domain.\<close>

definition checkInclude ::
  "env \<Rightarrow> options \<Rightarrow> nat \<Rightarrow> string \<Rightarrow> string \<Rightarrow> SPFResult action" where
  "checkInclude E opts n domain requiredDomain =
     (if \<not> tld_isValid E domain then
        return (new_SPFResult SPF_None ''No SPF record can be found on malformed domain'')
      else
        catch (await (getMechanisms E opts n domain A)
                 (\<lambda>ms. evaluateInclude E opts n ms requiredDomain []))
              to_result)"

section \<open>Notions for the proofs\<close>

text \<open>What an action returns, when it returns.\<close>

definition returns :: "'a action \<Rightarrow> ('a \<Rightarrow> bool) \<Rightarrow> bool" where
  "returns m \<phi> = (\<forall>st x st'. m st = (Return x, st') \<longrightarrow> \<phi> x)"

definition no_redirect :: "mechanism list \<Rightarrow> bool" where
  "no_redirect ms = list_all (\<lambda>m. mtype m \<noteq> ''redirect'') ms"

definition ends_with_all :: "mechanism list \<Rightarrow> mechanism list \<Rightarrow> bool" where
  "ends_with_all acc ms =
     (\<exists>mid m. ms = acc @ mid @ [m] \<and> is_all m \<and> resolve m = None
        \<and> list_all (\<lambda>x. \<not> is_all x) mid)"

text \<open>
  The counter that an event of the trace records, whether the event is a lookup inside
  the budget, and whether it is a refusal.
\<close>

fun ev_count :: "event \<Rightarrow> nat" where
  "ev_count (Issued h t b n) = n"
| "ev_count (Refused h t n) = n"

fun budgeted :: "event \<Rightarrow> bool" where
  "budgeted (Issued h t b n) = b"
| "budgeted (Refused h t n) = False"

fun is_refused :: "event \<Rightarrow> bool" where
  "is_refused (Issued h t b n) = False"
| "is_refused (Refused h t n) = True"

definition limit_error :: SPFResult where
  "limit_error = new_SPFResult PermError ''Limit of DNS lookups reached''"

text \<open>
  The state of an object, with the trace of what it has done: the counter is within the
  limit and equals the number of budgeted lookups of the trace, the counters that the
  trace records never decrease and none is above the present counter.
\<close>

definition counter_ok :: "options \<Rightarrow> state \<Rightarrow> bool" where
  "counter_ok opts st =
     (queryDNSCount st \<le> maxDNS opts
      \<and> queryDNSCount st = length (filter budgeted (trace st))
      \<and> sorted (map ev_count (trace st))
      \<and> list_all (\<lambda>e. ev_count e \<le> queryDNSCount st) (trace st))"

text \<open>The events that the second state has after those of the first.\<close>

definition added :: "state \<Rightarrow> state \<Rightarrow> event list" where
  "added st st' = drop (length (trace st)) (trace st')"

text \<open>
  The second state comes after the first: its trace is the trace of the first with
  events added, and its counter is not smaller.
\<close>

definition extends :: "state \<Rightarrow> state \<Rightarrow> bool" where
  "extends st st' =
     (trace st' = trace st @ added st st' \<and> queryDNSCount st \<le> queryDNSCount st')"

text \<open>
  A later state of the object, reached without a refusal; the counters that the added
  events record are not below the counter of the first state.
\<close>

definition steady :: "options \<Rightarrow> state \<Rightarrow> state \<Rightarrow> bool" where
  "steady opts st st' =
     (counter_ok opts st' \<and> extends st st'
      \<and> list_all (\<lambda>e. \<not> is_refused e \<and> queryDNSCount st \<le> ev_count e) (added st st'))"

text \<open>The state after a refusal: a state as above, with the refusal as last event.\<close>

definition refused_from :: "options \<Rightarrow> state \<Rightarrow> state \<Rightarrow> bool" where
  "refused_from opts st st' =
     (\<exists>st0 h t. steady opts st st0 \<and> queryDNSCount st0 = maxDNS opts
        \<and> st' = st0\<lparr>trace := trace st0 @ [Refused h t (queryDNSCount st0)]\<rparr>)"

text \<open>
  An action keeps the counter: from a state as above it ends in such a state with a
  counter that is not smaller, or it throws the error of the limit right after a
  refusal.
\<close>

definition keeps :: "options \<Rightarrow> 'a action \<Rightarrow> bool" where
  "keeps opts m =
     (\<forall>st. counter_ok opts st \<longrightarrow>
        steady opts st (snd (m st))
        \<or> (fst (m st) = Throw (Typed limit_error) \<and> refused_from opts st (snd (m st))))"

text \<open>
  The bound on the depth of the recursion is enough for the lookups that the limit
  still allows.
\<close>

definition enough :: "options \<Rightarrow> nat \<Rightarrow> state \<Rightarrow> bool" where
  "enough opts n st = (0 < n \<and> maxDNS opts < queryDNSCount st + n)"

text \<open>An action that does not run out of fuel where the bound is enough, and does not lower the counter.\<close>

definition total :: "options \<Rightarrow> nat \<Rightarrow> 'a action \<Rightarrow> bool" where
  "total opts n m =
     (\<forall>st. enough opts n st \<longrightarrow>
        fst (m st) \<noteq> OutOfFuel \<and> queryDNSCount st \<le> queryDNSCount (snd (m st)))"

text \<open>An action that never runs out of fuel and does not lower the counter.\<close>

definition plain :: "'a action \<Rightarrow> bool" where
  "plain m = (\<forall>st. fst (m st) \<noteq> OutOfFuel \<and> queryDNSCount st \<le> queryDNSCount (snd (m st)))"

text \<open>An action that returns only after a budgeted lookup was issued.\<close>

definition spends :: "options \<Rightarrow> 'a action \<Rightarrow> bool" where
  "spends opts m =
     (\<forall>st x st'. m st = (Return x, st') \<longrightarrow>
        queryDNSCount st < maxDNS opts \<and> queryDNSCount st < queryDNSCount st')"

text \<open>
  A list as \<^verbatim>\<open>resolveSPF\<close> returns it without prefetch: every include has its resolution
  step attached. A list as it returns it with prefetch at the given depth: every include
  has its list, resolved one level less deep.
\<close>

definition has_include_step :: "mechanism \<Rightarrow> bool" where
  "has_include_step m = (case resolve m of Some (ResolveInclude h rr) \<Rightarrow> True | _ \<Rightarrow> False)"

definition lazy :: "mechanism list \<Rightarrow> bool" where
  "lazy ms = list_all (\<lambda>m. is_include m \<longrightarrow> has_include_step m) ms"

fun resolved_within :: "nat \<Rightarrow> mechanism list \<Rightarrow> bool" where
  "resolved_within 0 ms = False"
| "resolved_within (Suc n) ms =
     list_all (\<lambda>m. is_include m \<longrightarrow>
        (case includes' m of None \<Rightarrow> False | Some incs \<Rightarrow> resolved_within n incs)) ms"

text \<open>An action that, from the given state, does not run out of fuel and does not lower the counter.\<close>

definition runs :: "'a action \<Rightarrow> state \<Rightarrow> bool" where
  "runs m st = (fst (m st) \<noteq> OutOfFuel \<and> queryDNSCount st \<le> queryDNSCount (snd (m st)))"

text \<open>What \<open>resolved_within\<close> asks of one mechanism.\<close>

definition resolved_include :: "nat \<Rightarrow> mechanism \<Rightarrow> bool" where
  "resolved_include n m =
     (is_include m \<longrightarrow>
        (case includes' m of None \<Rightarrow> False | Some incs \<Rightarrow> resolved_within n incs))"

section \<open>The calls of one run\<close>

text \<open>
  Lines 346-348 of \<^verbatim>\<open>evaluate\<close>: the nested evaluation of an include, as \<open>evaluate\<close> has it.
\<close>

definition include_step ::
  "env \<Rightarrow> options \<Rightarrow> nat \<Rightarrow> addr \<Rightarrow> mechanism \<Rightarrow> mechanism action" where
  "include_step E opts n addr m1 =
     (if is_include m1 then
        (case includes' m1 of
           None \<Rightarrow> throw (Untyped ''TypeError: mechanisms is undefined'')
         | Some incs \<Rightarrow>
             await (evaluate E opts n incs addr) (\<lambda>r. return (set_evaluated r m1)))
      else return m1)"

text \<open>
  Lines 434-437 of \<^verbatim>\<open>evaluateInclude\<close>: the nested search of an include, as \<open>include_loop\<close>
  has it, with the array that the loop goes on with.
\<close>

definition search_step ::
  "env \<Rightarrow> options \<Rightarrow> nat \<Rightarrow> string \<Rightarrow> mechanism list \<Rightarrow> nat \<Rightarrow> mechanism \<Rightarrow>
   (mechanism \<times> mechanism list) action" where
  "search_step E opts n domain l i m1 =
     (if is_include m1 then
        (case includes' m1 of
           None \<Rightarrow> throw (Untyped ''TypeError: mechanisms is undefined'')
         | Some incs \<Rightarrow>
             await (evaluateInclude E opts n incs domain (drop (Suc i) l)) (\<lambda>ev.
             return (set_evaluated ev m1, drop (Suc i) l @ filter is_include incs)))
      else return (m1, l))"

text \<open>
  The calls that a run is made of: a call of a method with its arguments, a loop from a
  position on, or a step of a loop. The numbers are the bounds on the depth of the
  recursion that the model gives each of them.
\<close>

datatype call =
    Call_check nat string string
  | Call_checkInclude nat string string
  | Call_getMechanisms nat string rrtype
  | Call_resolveSPF nat string rrtype
  | Call_fetch_policy string
  | Call_resolve_loop nat string rrtype bool "parsed_mechanism list" "mechanism list"
  | Call_prepare string rrtype parsed_mechanism
  | Call_run_resolve nat mechanism
  | Call_resolveDNS string rrtype "bool option"
  | Call_resolveMX string rrtype
  | Call_resolve_exchanges rrtype "(nat \<times> string) list"
  | Call_evaluate nat "mechanism list" addr
  | Call_match mechanism "addr option"
  | Call_matched_result mechanism
  | Call_evaluateInclude nat "mechanism list" string "mechanism list"
  | Call_include_loop nat string "mechanism list" nat
  | Call_try_resolve nat mechanism
  | Call_match_evaluated mechanism

text \<open>An action without the value it returns: what it throws and the state it leaves.\<close>

definition forget :: "'a action \<Rightarrow> unit action" where
  "forget m st =
     (case m st of
        (Return x, st') \<Rightarrow> (Return (), st')
      | (Throw e, st') \<Rightarrow> (Throw e, st')
      | (OutOfFuel, st') \<Rightarrow> (OutOfFuel, st'))"

fun exec :: "env \<Rightarrow> options \<Rightarrow> call \<Rightarrow> unit action" where
  "exec E opts (Call_check n d ip) = forget (check E opts n d ip)"
| "exec E opts (Call_checkInclude n d required) = forget (checkInclude E opts n d required)"
| "exec E opts (Call_getMechanisms n d rr) = forget (getMechanisms E opts n d rr)"
| "exec E opts (Call_resolveSPF n h rr) = forget (resolveSPF E opts n h rr)"
| "exec E opts (Call_fetch_policy h) = forget (fetch_policy E opts h)"
| "exec E opts (Call_resolve_loop n h rr c ps acc) = forget (resolve_loop E opts n h rr c ps acc)"
| "exec E opts (Call_prepare h rr pm) = forget (prepare E h rr pm)"
| "exec E opts (Call_run_resolve n m) = forget (run_resolve E opts n m)"
| "exec E opts (Call_resolveDNS h t l) = forget (resolveDNS E opts h t l)"
| "exec E opts (Call_resolveMX h rr) = forget (resolveMX E opts h rr)"
| "exec E opts (Call_resolve_exchanges rr es) = forget (resolve_exchanges E opts rr es)"
| "exec E opts (Call_evaluate n ms a) = forget (evaluate E opts n ms a)"
| "exec E opts (Call_match m a) = forget (match E opts m a)"
| "exec E opts (Call_matched_result m) = forget (matched_result m)"
| "exec E opts (Call_evaluateInclude n ms d arr) = forget (evaluateInclude E opts n ms d arr)"
| "exec E opts (Call_include_loop n d l i) = forget (include_loop E opts n d l i)"
| "exec E opts (Call_try_resolve n m) = forget (try_resolve E opts n m)"
| "exec E opts (Call_match_evaluated m) = forget (match_evaluated E opts m)"

text \<open>
  \<open>sub E opts g c st c' st'\<close>: the run of the call \<open>c\<close> from the state \<open>st\<close> makes the call
  \<open>c'\<close>, and makes it in the state \<open>st'\<close>. There is one rule for each place of the code
  where a call is made, with the condition under which the run reaches that place.
  The flag \<open>g\<close> is true when the call is made inside a \<^verbatim>\<open>try\<close> block of \<open>c\<close>.
\<close>

inductive sub :: "env \<Rightarrow> options \<Rightarrow> bool \<Rightarrow> call \<Rightarrow> state \<Rightarrow> call \<Rightarrow> state \<Rightarrow> bool"
  for E :: env and opts :: options
where
  check_getMechanisms:
    "ip_isValid E ip \<Longrightarrow> tld_isValid E d \<Longrightarrow>
     rr = (if fst (ip_parse E ip) = IPv4 then A else AAAA) \<Longrightarrow>
     sub E opts True (Call_check n d ip) st (Call_getMechanisms n d rr) st"
| check_evaluate:
    "ip_isValid E ip \<Longrightarrow> tld_isValid E d \<Longrightarrow>
     rr = (if fst (ip_parse E ip) = IPv4 then A else AAAA) \<Longrightarrow>
     getMechanisms E opts n d rr st = (Return ms, st1) \<Longrightarrow>
     sub E opts True (Call_check n d ip) st (Call_evaluate n ms (ip_parse E ip)) st1"
| checkInclude_getMechanisms:
    "tld_isValid E d \<Longrightarrow>
     sub E opts True (Call_checkInclude n d required) st (Call_getMechanisms n d A) st"
| checkInclude_evaluateInclude:
    "tld_isValid E d \<Longrightarrow>
     getMechanisms E opts n d A st = (Return ms, st1) \<Longrightarrow>
     sub E opts True (Call_checkInclude n d required) st
       (Call_evaluateInclude n ms required []) st1"
| getMechanisms_resolveSPF:
    "sub E opts True (Call_getMechanisms n d rr) st (Call_resolveSPF n d rr) st"
| resolveSPF_fetch_policy:
    "sub E opts False (Call_resolveSPF (Suc n) h rr) st (Call_fetch_policy h) st"
| resolveSPF_resolve_loop:
    "fetch_policy E opts h st = (Return ps, st1) \<Longrightarrow>
     sub E opts False (Call_resolveSPF (Suc n) h rr) st
       (Call_resolve_loop n h rr (has_catchAll ps) ps []) st1"
| fetch_policy_resolveDNS:
    "sub E opts False (Call_fetch_policy h) st (Call_resolveDNS h TXT None) st"
| redirect_resolveSPF:
    "is_redirect pm \<Longrightarrow> \<not> c \<Longrightarrow>
     sub E opts False (Call_resolve_loop n h rr c (pm # ps) acc) st
       (Call_resolveSPF n (pvalue pm) rr) st"
| redirect_next:
    "is_redirect pm \<Longrightarrow> \<not> c \<Longrightarrow>
     resolveSPF E opts n (pvalue pm) rr st = (Return rs, st1) \<Longrightarrow>
     sub E opts False (Call_resolve_loop n h rr c (pm # ps) acc) st
       (Call_resolve_loop n h rr c ps (acc @ rs)) st1"
| redirect_skipped:
    "is_redirect pm \<Longrightarrow> c \<Longrightarrow>
     sub E opts False (Call_resolve_loop n h rr c (pm # ps) acc) st
       (Call_resolve_loop n h rr c ps acc) st"
| resolve_loop_prepare:
    "\<not> is_redirect pm \<Longrightarrow>
     sub E opts False (Call_resolve_loop n h rr c (pm # ps) acc) st (Call_prepare h rr pm) st"
| resolve_loop_prefetch:
    "\<not> is_redirect pm \<Longrightarrow>
     prepare E h rr pm st = (Return m2, st1) \<Longrightarrow>
     prefetch opts \<Longrightarrow> resolve m2 \<noteq> None \<Longrightarrow>
     sub E opts False (Call_resolve_loop n h rr c (pm # ps) acc) st (Call_run_resolve n m2) st1"
| resolve_loop_next:
    "\<not> is_redirect pm \<Longrightarrow>
     prepare E h rr pm st = (Return m2, st1) \<Longrightarrow>
     (if prefetch opts \<and> resolve m2 \<noteq> None then run_resolve E opts n m2 else return m2) st1
       = (Return m3, st2) \<Longrightarrow>
     \<not> is_all m3 \<Longrightarrow>
     sub E opts False (Call_resolve_loop n h rr c (pm # ps) acc) st
       (Call_resolve_loop n h rr c ps (acc @ [m3])) st2"
| resolve_a:
    "resolve m = Some (ResolveA h rr) \<Longrightarrow>
     sub E opts False (Call_run_resolve n m) st (Call_resolveDNS h rr None) st"
| resolve_mx:
    "resolve m = Some (ResolveMX h rr) \<Longrightarrow>
     sub E opts False (Call_run_resolve n m) st (Call_resolveMX h rr) st"
| resolve_include:
    "resolve m = Some (ResolveInclude h rr) \<Longrightarrow>
     sub E opts False (Call_run_resolve n m) st (Call_resolveSPF n h rr) st"
| resolveMX_resolveDNS:
    "sub E opts False (Call_resolveMX h rr) st (Call_resolveDNS h MX None) st"
| resolveMX_exchanges:
    "resolveDNS E opts h MX None st = (Return (Exchanges es), st1) \<Longrightarrow>
     \<not> maxDNS opts \<le> length es \<Longrightarrow>
     sub E opts False (Call_resolveMX h rr) st (Call_resolve_exchanges rr es) st1"
| exchanges_resolveDNS:
    "sub E opts False (Call_resolve_exchanges rr ((p, x) # es)) st
       (Call_resolveDNS x rr (Some False)) st"
| exchanges_next:
    "resolveDNS E opts x rr (Some False) st = (Return recs, st1) \<Longrightarrow>
     sub E opts False (Call_resolve_exchanges rr ((p, x) # es)) st
       (Call_resolve_exchanges rr es) st1"
| evaluate_resolve:
    "\<not> prefetch opts \<Longrightarrow> resolve m \<noteq> None \<Longrightarrow>
     sub E opts False (Call_evaluate (Suc n) (m # ms) a) st (Call_run_resolve n m) st"
| evaluate_include:
    "lazy_resolve E opts n m st = (Return m1, st1) \<Longrightarrow>
     is_include m1 \<Longrightarrow> includes' m1 = Some incs \<Longrightarrow>
     sub E opts False (Call_evaluate (Suc n) (m # ms) a) st (Call_evaluate n incs a) st1"
| evaluate_match:
    "lazy_resolve E opts n m st = (Return m1, st1) \<Longrightarrow>
     include_step E opts n a m1 st1 = (Return m2, st2) \<Longrightarrow>
     sub E opts False (Call_evaluate (Suc n) (m # ms) a) st (Call_match m2 (Some a)) st2"
| evaluate_matched:
    "lazy_resolve E opts n m st = (Return m1, st1) \<Longrightarrow>
     include_step E opts n a m1 st1 = (Return m2, st2) \<Longrightarrow>
     match E opts m2 (Some a) st2 = (Return True, st3) \<Longrightarrow>
     sub E opts False (Call_evaluate (Suc n) (m # ms) a) st (Call_matched_result m2) st3"
| evaluate_next:
    "lazy_resolve E opts n m st = (Return m1, st1) \<Longrightarrow>
     include_step E opts n a m1 st1 = (Return m2, st2) \<Longrightarrow>
     match E opts m2 (Some a) st2 = (Return False, st3) \<Longrightarrow>
     sub E opts False (Call_evaluate (Suc n) (m # ms) a) st (Call_evaluate (Suc n) ms a) st3"
| evaluateInclude_loop:
    "l = arr @ filter is_include ms \<Longrightarrow> length l \<noteq> 0 \<Longrightarrow>
     \<not> list_ex (direct_match d) l \<Longrightarrow>
     sub E opts False (Call_evaluateInclude (Suc n) ms d arr) st (Call_include_loop n d l 0) st"
| include_loop_try:
    "i < length l \<Longrightarrow>
     sub E opts False (Call_include_loop (Suc n) d l i) st (Call_try_resolve n (l ! i)) st"
| include_loop_skip:
    "i < length l \<Longrightarrow>
     try_resolve E opts n (l ! i) st = (Return None, st1) \<Longrightarrow>
     sub E opts False (Call_include_loop (Suc n) d l i) st (Call_include_loop n d l (Suc i)) st1"
| include_loop_search:
    "i < length l \<Longrightarrow>
     try_resolve E opts n (l ! i) st = (Return (Some m1), st1) \<Longrightarrow>
     is_include m1 \<Longrightarrow> includes' m1 = Some incs \<Longrightarrow>
     sub E opts False (Call_include_loop (Suc n) d l i) st
       (Call_evaluateInclude n incs d (drop (Suc i) l)) st1"
| include_loop_match:
    "i < length l \<Longrightarrow>
     try_resolve E opts n (l ! i) st = (Return (Some m1), st1) \<Longrightarrow>
     search_step E opts n d l i m1 st1 = (Return (m2, l2), st2) \<Longrightarrow>
     sub E opts False (Call_include_loop (Suc n) d l i) st (Call_match_evaluated m2) st2"
| include_loop_matched:
    "i < length l \<Longrightarrow>
     try_resolve E opts n (l ! i) st = (Return (Some m1), st1) \<Longrightarrow>
     search_step E opts n d l i m1 st1 = (Return (m2, l2), st2) \<Longrightarrow>
     match_evaluated E opts m2 st2 = (Return True, st3) \<Longrightarrow>
     sub E opts False (Call_include_loop (Suc n) d l i) st (Call_matched_result m2) st3"
| include_loop_next:
    "i < length l \<Longrightarrow>
     try_resolve E opts n (l ! i) st = (Return (Some m1), st1) \<Longrightarrow>
     search_step E opts n d l i m1 st1 = (Return (m2, l2), st2) \<Longrightarrow>
     match_evaluated E opts m2 st2 = (Return False, st3) \<Longrightarrow>
     sub E opts False (Call_include_loop (Suc n) d l i) st
       (Call_include_loop n d l2 (Suc i)) st3"
| try_resolve_resolve:
    "\<not> prefetch opts \<Longrightarrow> resolve m \<noteq> None \<Longrightarrow>
     sub E opts True (Call_try_resolve n m) st (Call_run_resolve n m) st"
| match_evaluated_match:
    "evaluated m = Some ev \<Longrightarrow> result ev \<noteq> SPF_None \<Longrightarrow>
     sub E opts False (Call_match_evaluated m) st (Call_match m None) st"

text \<open>
  \<open>inside E opts g c0 st0 c st\<close>: the run of \<open>c0\<close> from \<open>st0\<close> makes the call \<open>c\<close> in the
  state \<open>st\<close>, at any depth; \<open>g\<close> is true when one of the calls on the way is made inside
  a \<^verbatim>\<open>try\<close> block.
\<close>

inductive inside :: "env \<Rightarrow> options \<Rightarrow> bool \<Rightarrow> call \<Rightarrow> state \<Rightarrow> call \<Rightarrow> state \<Rightarrow> bool"
  for E :: env and opts :: options
where
  here: "inside E opts False c st c st"
| step: "sub E opts g1 c0 st0 c1 st1 \<Longrightarrow> inside E opts g2 c1 st1 c st \<Longrightarrow>
         inside E opts (g1 \<or> g2) c0 st0 c st"

section \<open>Notions for the proofs about calls\<close>

text \<open>
  The second action, run from the second state, is a part of the run of the first
  action from the first state: it starts in a state that comes after the first state,
  and the state it leaves comes before the state that the first action leaves. This is
  asked for a first state where the counter and the trace agree.
\<close>

definition part :: "options \<Rightarrow> 'a action \<Rightarrow> state \<Rightarrow> 'b action \<Rightarrow> state \<Rightarrow> bool" where
  "part opts m0 s0 m1 s1 =
     (counter_ok opts s0 \<longrightarrow>
        counter_ok opts s1 \<and> extends s0 s1 \<and> extends (snd (m1 s1)) (snd (m0 s0)))"

text \<open>What the second action throws from the second state, the first throws from the first.\<close>

definition passes :: "'a action \<Rightarrow> state \<Rightarrow> 'b action \<Rightarrow> state \<Rightarrow> bool" where
  "passes m0 s0 m1 s1 = (\<forall>e s'. m1 s1 = (Throw e, s') \<longrightarrow> m0 s0 = (Throw e, s'))"

section \<open>Notions for the fuel of the search for an included domain\<close>

text \<open>
  A list as \<^verbatim>\<open>resolveSPF\<close> returns it without prefetch: no mechanism has its list of
  included mechanisms yet, and every include has its resolution step. A list of such
  includes. An action that has spent a budgeted lookup when it ends, unless it ends with
  the refusal of the limit or runs out of fuel.
\<close>

definition fresh :: "mechanism list \<Rightarrow> bool" where
  "fresh ms = list_all (\<lambda>m. includes' m = None \<and> (is_include m \<longrightarrow> has_include_step m)) ms"

definition fresh_includes :: "mechanism list \<Rightarrow> bool" where
  "fresh_includes l = list_all (\<lambda>m. includes' m = None \<and> has_include_step m) l"

definition charges :: "options \<Rightarrow> 'a action \<Rightarrow> bool" where
  "charges opts m =
     (\<forall>st r st'. m st = (r, st') \<longrightarrow>
        r = Throw (Typed limit_error) \<or> r = OutOfFuel
        \<or> (queryDNSCount st < maxDNS opts \<and> queryDNSCount st < queryDNSCount st'))"

text \<open>
  The number of includes in the tree of an include that has been resolved (itself and
  the includes of the lists below it), and in a list of them.
\<close>

fun include_count :: "mechanism \<Rightarrow> nat" where
  "include_count (Mechanism t v p r a rs es incs ev) =
     Suc (case incs of
            None \<Rightarrow> 0
          | Some l \<Rightarrow> sum_list (map include_count (filter is_include l)))"

definition includes_count :: "mechanism list \<Rightarrow> nat" where
  "includes_count l = sum_list (map include_count l)"

section \<open>Fixtures\<close>

text \<open>
  Concrete collaborators for the examples below: an address library that knows the
  address 127.0.0.1, a domain check that refuses one name, and small zones and parsers.
\<close>

definition fixture_env ::
  "(string \<Rightarrow> rrtype \<Rightarrow> string + answer) \<Rightarrow> (string \<Rightarrow> string + parsed) \<Rightarrow> env" where
  "fixture_env d p =
     \<lparr> dns_resolve = d,
       spfParse = p,
       ip_isValid = (\<lambda>s. s = ''127.0.0.1''),
       ip_parse = (\<lambda>s. (IPv4, s)),
       parseCIDR = (\<lambda>s. if s = ''127.0.0.1/32'' then Some ((IPv4, ''127.0.0.1''), 32) else None),
       addr_match = (\<lambda>a c. snd a = snd (fst c)),
       tld_isValid = (\<lambda>s. s \<noteq> ''<invalid-hostname>'') \<rparr>"

definition no_parse :: "string \<Rightarrow> string + parsed" where
  "no_parse s = Inl ''unexpected record''"

definition servfail_zone :: "string \<Rightarrow> rrtype \<Rightarrow> string + answer" where
  "servfail_zone h t = Inl ''queryA ESERVFAIL example.com''"

definition nxdomain_a_zone :: "string \<Rightarrow> rrtype \<Rightarrow> string + answer" where
  "nxdomain_a_zone h t = Inl ''queryA ENOTFOUND example.com''"

definition nxdomain_txt_zone :: "string \<Rightarrow> rrtype \<Rightarrow> string + answer" where
  "nxdomain_txt_zone h t = Inl ''queryTxt ENOTFOUND example.com''"

definition two_records_zone :: "string \<Rightarrow> rrtype \<Rightarrow> string + answer" where
  "two_records_zone h t =
     (if h = ''example.com'' \<and> t = TXT
      then Inr (Chunks [[''v=spf1 '', ''redirect=_spf.example.com''],
                        [''v=spf1 ip4:192.168.0.1/32 -all'']])
      else Inl ''queryTxt ESERVFAIL'')"

text \<open>
  The answers of \<^verbatim>\<open>spf-parse\<close> on the records of the zones below (its warnings left
  out): the version term has no \<^verbatim>\<open>prefixdesc\<close>, a term without a qualifier has the
  qualifier \<^verbatim>\<open>+\<close> (Pass).
\<close>

definition term_of :: "string \<Rightarrow> string \<Rightarrow> string \<Rightarrow> parsed_mechanism" where
  "term_of t v d = \<lparr> ptype = t, pvalue = v, pprefixdesc = Some d \<rparr>"

definition version_term :: parsed_mechanism where
  "version_term = \<lparr> ptype = ''version'', pvalue = ''spf1'', pprefixdesc = None \<rparr>"

definition policy :: "parsed_mechanism list \<Rightarrow> string + parsed" where
  "policy ms = Inr \<lparr> valid = True, pmessages = [], mechanisms = version_term # ms \<rparr>"

definition fixture_parse :: "string \<Rightarrow> string + parsed" where
  "fixture_parse s =
     (if s = ''v=spf1 include:_spf.example.com''
        then policy [term_of ''include'' ''_spf.example.com'' ''Pass'']
      else if s = ''v=spf1 +all'' then policy [term_of ''all'' [] ''Pass'']
      else if s = ''v=spf1 redirect=_spf.example.com''
        then policy [term_of ''redirect'' ''_spf.example.com'' ''Pass'']
      else if s = ''v=spf1 redirect=_spf.example.com -all a''
        then policy [term_of ''redirect'' ''_spf.example.com'' ''Pass'',
                     term_of ''all'' [] ''Fail'', term_of ''a'' [] ''Pass'']
      else if s = ''v=spf1 -include:a.example.com''
        then policy [term_of ''include'' ''a.example.com'' ''Fail'']
      else if s = ''v=spf1 include:t.example.com''
        then policy [term_of ''include'' ''t.example.com'' ''Pass'']
      else if s = ''v=spf1 include:i1.example.com include:i2.example.com include:i3.example.com include:i4.example.com include:i5.example.com''
        then policy [term_of ''include'' ''i1.example.com'' ''Pass'',
                     term_of ''include'' ''i2.example.com'' ''Pass'',
                     term_of ''include'' ''i3.example.com'' ''Pass'',
                     term_of ''include'' ''i4.example.com'' ''Pass'',
                     term_of ''include'' ''i5.example.com'' ''Pass'']
      else if s = ''v=spf1 ip4:127.0.0.1'' then policy [term_of ''ip4'' ''127.0.0.1'' ''Pass'']
      else if s = ''v=spf1 include:gone.example.com''
        then policy [term_of ''include'' ''gone.example.com'' ''Pass'']
      else if s = ''v=spf1 include:loop.example.com''
        then policy [term_of ''include'' ''loop.example.com'' ''Pass'']
      else Inl ''unexpected record'')"

text \<open>The zone of the test \<^verbatim>\<open>returns Pass when INCLUDE mechanism is resolved and match\<close>.\<close>

definition include_zone :: "string \<Rightarrow> rrtype \<Rightarrow> string + answer" where
  "include_zone h t =
     (if t = TXT \<and> h = ''example.com'' then Inr (Chunks [[''v=spf1 include:_spf.example.com'']])
      else if t = TXT \<and> h = ''_spf.example.com'' then Inr (Chunks [[''v=spf1 +all'']])
      else Inl (''queryTxt ESERVFAIL '' @ h))"

text \<open>A policy that includes a.example.com with the qualifier \<^verbatim>\<open>-\<close>; a.example.com includes t.example.com.\<close>

definition qualified_zone :: "string \<Rightarrow> rrtype \<Rightarrow> string + answer" where
  "qualified_zone h t =
     (if t = TXT \<and> h = ''example.com'' then Inr (Chunks [[''v=spf1 -include:a.example.com'']])
      else if t = TXT \<and> h = ''a.example.com'' then Inr (Chunks [[''v=spf1 include:t.example.com'']])
      else Inl (''queryTxt ESERVFAIL '' @ h))"

text \<open>A policy with five includes, each of a policy without includes.\<close>

definition siblings_zone :: "string \<Rightarrow> rrtype \<Rightarrow> string + answer" where
  "siblings_zone h t =
     (if t = TXT \<and> h = ''example.com'' then
        Inr (Chunks [[''v=spf1 include:i1.example.com include:i2.example.com include:i3.example.com include:i4.example.com include:i5.example.com'']])
      else if t = TXT \<and> h \<in> set [''i1.example.com'', ''i2.example.com'', ''i3.example.com'',
                                   ''i4.example.com'', ''i5.example.com'']
        then Inr (Chunks [[''v=spf1 ip4:127.0.0.1'']])
      else Inl (''queryTxt ESERVFAIL '' @ h))"

text \<open>A policy that includes a domain that does not exist.\<close>

definition gone_zone :: "string \<Rightarrow> rrtype \<Rightarrow> string + answer" where
  "gone_zone h t =
     (if t = TXT \<and> h = ''example.com'' then Inr (Chunks [[''v=spf1 include:gone.example.com'']])
      else Inl (''queryTxt ENOTFOUND '' @ h))"

text \<open>A policy that is a redirect, and a policy with a redirect, an all and an a after it.\<close>

definition redirect_zone :: "string \<Rightarrow> rrtype \<Rightarrow> string + answer" where
  "redirect_zone h t =
     (if t = TXT \<and> h = ''example.com''
        then Inr (Chunks [[''v=spf1 '', ''redirect=_spf.example.com'']])
      else if t = TXT \<and> h = ''both.example.com''
        then Inr (Chunks [[''v=spf1 redirect=_spf.example.com -all a'']])
      else if t = TXT \<and> h = ''_spf.example.com'' then Inr (Chunks [[''v=spf1 +all'']])
      else Inl (''queryTxt ESERVFAIL '' @ h))"

text \<open>A policy that includes itself.\<close>

definition loop_zone :: "string \<Rightarrow> rrtype \<Rightarrow> string + answer" where
  "loop_zone h t =
     (if t = TXT \<and> h = ''loop.example.com''
        then Inr (Chunks [[''v=spf1 include:loop.example.com'']])
      else Inl (''queryTxt ESERVFAIL '' @ h))"

text \<open>
  The check of example.com in the zone with the include of a domain that does not exist:
  the include with its resolution step, the state after the lookup of the policy and the
  state after the lookup of the included domain.
\<close>

definition gone_env :: env where
  "gone_env = fixture_env gone_zone fixture_parse"

definition gone_include :: mechanism where
  "gone_include =
     set_resolve (ResolveInclude ''gone.example.com'' A)
       (mechanism_of (term_of ''include'' ''gone.example.com'' ''Pass''))"

definition gone_state :: state where
  "gone_state = \<lparr> queryDNSCount = 1, warnings = [], trace = [Issued ''example.com'' TXT True 1] \<rparr>"

definition gone_final :: state where
  "gone_final =
     \<lparr> queryDNSCount = 2, warnings = [],
       trace = [Issued ''example.com'' TXT True 1, Issued ''gone.example.com'' TXT True 2] \<rparr>"

text \<open>
  The check of the policy that includes itself: the include with its resolution step, the
  state after \<open>k\<close> lookups and the state after the refusal of the eleventh.
\<close>

definition loop_env :: env where
  "loop_env = fixture_env loop_zone fixture_parse"

definition loop_include :: mechanism where
  "loop_include =
     set_resolve (ResolveInclude ''loop.example.com'' A)
       (mechanism_of (term_of ''include'' ''loop.example.com'' ''Pass''))"

definition loop_state :: "nat \<Rightarrow> state" where
  "loop_state k =
     \<lparr> queryDNSCount = k, warnings = [],
       trace = map (Issued ''loop.example.com'' TXT True) [1..<Suc k] \<rparr>"

definition loop_final :: state where
  "loop_final =
     \<lparr> queryDNSCount = 10, warnings = [],
       trace = map (Issued ''loop.example.com'' TXT True) [1..<11]
               @ [Refused ''loop.example.com'' TXT 10] \<rparr>"

section \<open>Properties\<close>

subsection \<open>Sequencing\<close>

lemma await_Return: "m st = (Return x, st1) \<Longrightarrow> await m k st = k x st1"
  by (simp add: await_def)

lemma await_Throw: "m st = (Throw e, st1) \<Longrightarrow> await m k st = (Throw e, st1)"
  by (simp add: await_def)

lemma await_OutOfFuel: "m st = (OutOfFuel, st1) \<Longrightarrow> await m k st = (OutOfFuel, st1)"
  by (simp add: await_def)

lemma await_cases:
  obtains (Return) x st1 where "m st = (Return x, st1)" "await m k st = k x st1"
  | (Throw) e st1 where "m st = (Throw e, st1)" "await m k st = (Throw e, st1)"
  | (OutOfFuel) st1 where "m st = (OutOfFuel, st1)" "await m k st = (OutOfFuel, st1)"
proof (cases "m st")
  case (Pair r st1)
  then show ?thesis
    by (cases r) (auto simp: await_def intro: that)
qed

lemma preserves_await:
  assumes "\<And>a b c. R a b \<Longrightarrow> R b c \<Longrightarrow> R a c"
    and "\<And>st. R st (snd (m st))"
    and "\<And>x st. R st (snd (k x st))"
  shows "R st (snd (await m k st))"
proof (cases rule: await_cases [of m st k])
  case (Return x st1)
  then show ?thesis using assms(1) [of st st1 "snd (k x st1)"] assms(2) [of st] assms(3) [of st1 x]
    by simp
next
  case (Throw e st1)
  then show ?thesis using assms(2) [of st] by simp
next
  case (OutOfFuel st1)
  then show ?thesis using assms(2) [of st] by simp
qed

subsection \<open>The counter in resolveDNS and resolveMX\<close>

lemma resolveDNS_count:
  "queryDNSCount (snd (resolveDNS E opts h t l st)) =
     (if l \<noteq> Some False \<and> queryDNSCount st < maxDNS opts
      then queryDNSCount st + 1 else queryDNSCount st)"
  by (cases l) (auto simp: resolveDNS_def Let_def split: sum.splits)

lemma resolve_exchanges_count:
  "queryDNSCount (snd (resolve_exchanges E opts rrtype es st)) = queryDNSCount st"
proof (induction es arbitrary: st)
  case Nil
  show ?case by (simp add: return_def)
next
  case (Cons e es)
  obtain p x where e: "e = (p, x)" by (cases e)
  have inner: "queryDNSCount (snd (await (resolve_exchanges E opts rrtype es)
      (\<lambda>rest. return (\<lparr>priority = p, exchange = x, exch_records = recs\<rparr> # rest)) st1))
        = queryDNSCount st1" for recs st1
    by (rule preserves_await [where R = "\<lambda>a b. queryDNSCount b = queryDNSCount a"])
       (simp_all add: Cons.IH return_def)
  show ?case
    unfolding e resolve_exchanges.simps
    by (rule preserves_await [where R = "\<lambda>a b. queryDNSCount b = queryDNSCount a"])
       (simp_all add: resolveDNS_count inner)
qed

text \<open>
  Claim C10. A budgeted lookup that passes the test of the limit adds exactly one to
  \<^verbatim>\<open>queryDNSCount\<close> and is issued, whatever the resolver answers (an error or
  records); a lookup with the flag off is issued and leaves the counter as it was, and
  so do the address lookups that \<^verbatim>\<open>resolveMX\<close> makes for the exchanges.
\<close>

theorem resolveDNS_counter:
  "(lookupLimit \<noteq> Some False \<and> queryDNSCount st < maxDNS opts \<longrightarrow>
      queryDNSCount (snd (resolveDNS E opts h t lookupLimit st)) = queryDNSCount st + 1
      \<and> trace (snd (resolveDNS E opts h t lookupLimit st))
          = trace st @ [Issued h t True (queryDNSCount st + 1)])
   \<and> queryDNSCount (snd (resolveDNS E opts h t (Some False) st)) = queryDNSCount st
   \<and> trace (snd (resolveDNS E opts h t (Some False) st))
          = trace st @ [Issued h t False (queryDNSCount st)]
   \<and> queryDNSCount (snd (resolve_exchanges E opts t xs st)) = queryDNSCount st"
proof -
  have "trace (snd (resolveDNS E opts h t (Some False) st))
          = trace st @ [Issued h t False (queryDNSCount st)]"
    by (simp add: resolveDNS_def Let_def split: sum.splits)
  moreover have "lookupLimit \<noteq> Some False \<Longrightarrow> queryDNSCount st < maxDNS opts \<Longrightarrow>
      trace (snd (resolveDNS E opts h t lookupLimit st))
          = trace st @ [Issued h t True (queryDNSCount st + 1)]"
    by (cases lookupLimit) (auto simp: resolveDNS_def Let_def split: sum.splits)
  ultimately show ?thesis
    by (simp add: resolveDNS_count resolve_exchanges_count)
qed

text \<open>A failed budgeted lookup on a new object: the counter is 1 afterwards.\<close>

theorem resolveDNS_counter_witness:
  "queryDNSCount (snd (resolveDNS (fixture_env servfail_zone no_parse) default_options
      ''example.com'' A None SPF_new)) = 1
   \<and> fst (resolveDNS (fixture_env servfail_zone no_parse) default_options
      ''example.com'' A None SPF_new)
       = Throw (Typed (new_SPFResult TempError ''queryA ESERVFAIL example.com''))"
  using resolveDNS_counter [of None SPF_new default_options "fixture_env servfail_zone no_parse" "''example.com''" A "[]"]
  apply (simp add: SPF_new_def default_options_def)
  apply (simp add: resolveDNS_def fixture_env_def servfail_zone_def match_here_def match_code_def)
  done

subsection \<open>Malformed input\<close>

text \<open>
  Claim C2. When the address is not valid, or the domain is not valid, \<^verbatim>\<open>check\<close> on a new
  object returns a result with the outcome None and leaves the object as it was: the
  counter is still 0 and the trace is empty, so the resolver was never called.
\<close>

theorem check_malformed_input:
  assumes "\<not> ip_isValid E ip \<or> \<not> tld_isValid E domain"
  shows "\<exists>r. check E opts n domain ip SPF_new = (Return r, SPF_new) \<and> result r = SPF_None
           \<and> queryDNSCount SPF_new = 0 \<and> trace SPF_new = []"
  using assms by (auto simp: check_def return_def new_SPFResult_def SPF_new_def)

text \<open>The first test of the repository: the address 127.0.0.256.\<close>

theorem check_malformed_input_witness:
  "\<exists>r. check (fixture_env servfail_zone no_parse) default_options 11 ''example.com'' ''127.0.0.256'' SPF_new
         = (Return r, SPF_new) \<and> result r = SPF_None"
  using check_malformed_input [of "fixture_env servfail_zone no_parse" "''127.0.0.256''" "''example.com''" default_options 11]
  by (auto simp: fixture_env_def)


subsection \<open>Failures of the resolver\<close>

lemma match_host_self: "match_host h (h @ post)"
  by (induction h) auto

lemma match_literal_self: "match_literal p (p @ s) = Some s"
  by (induction p) auto

lemma match_literal_Some: "match_literal p s = Some r \<Longrightarrow> s = p @ r"
  by (induction p s rule: match_literal.induct) (auto split: if_splits)

lemma notfound_test_here: "match_here h s \<Longrightarrow> notfound_test h s"
  by (cases s) auto

lemma notfound_test_prepend: "notfound_test h s \<Longrightarrow> notfound_test h (pre @ s)"
  by (induction pre) auto

lemma notfound_test_report:
  assumes "code = ''ENOTFOUND'' \<or> code = ''ENODATA''"
  shows "notfound_test h (pre @ ''queryTxt '' @ code @ '' '' @ h @ post)"
proof -
  have "match_code code h ((''queryTxt '' @ code @ '' '') @ h @ post)"
    unfolding match_code_def match_literal_self by (simp add: match_host_self)
  then have "match_here h (''queryTxt '' @ code @ '' '' @ h @ post)"
    using assms by (auto simp: match_here_def)
  then show ?thesis
    by (intro notfound_test_prepend notfound_test_here)
qed

lemma match_here_queryTxt: "match_here h s \<Longrightarrow> \<exists>post. s = ''queryTxt '' @ post"
  by (auto simp: match_here_def match_code_def split: option.splits dest!: match_literal_Some)

lemma notfound_test_queryTxt:
  "notfound_test h msg \<Longrightarrow> \<exists>pre post. msg = pre @ ''queryTxt '' @ post"
proof (induction msg)
  case Nil
  then show ?case by (auto dest: match_here_queryTxt)
next
  case (Cons c cs)
  from Cons.prems consider "match_here h (c # cs)" | "notfound_test h cs" by auto
  then show ?case
  proof cases
    case 1
    then obtain post where "c # cs = ''queryTxt '' @ post" by (auto dest: match_here_queryTxt)
    then have "c # cs = [] @ ''queryTxt '' @ post" by simp
    then show ?thesis by blast
  next
    case 2
    then obtain pre post where "cs = pre @ ''queryTxt '' @ post" using Cons.IH by blast
    then have "c # cs = (c # pre) @ ''queryTxt '' @ post" by simp
    then show ?thesis by blast
  qed
qed

text \<open>
  Claim C6, as amended. For a lookup that is issued, of any record type and for a host
  name of letters, digits, hyphens, underscores and dots: when the resolver fails,
  \<^verbatim>\<open>resolveDNS\<close> throws None (\<^verbatim>\<open>Domain does not exists\<close>) exactly when the pattern
  \<^verbatim>\<open>queryTxt (ENOTFOUND|ENODATA) hostname\<close> matches the message, and TempError with the
  message of the error otherwise. The pattern matches every message that contains
  \<^verbatim>\<open>queryTxt ENOTFOUND\<close> or \<^verbatim>\<open>queryTxt ENODATA\<close> followed by the host name, and no
  message without \<^verbatim>\<open>queryTxt\<close> and a space: the not-found report of an A, AAAA or MX
  query is a TempError.
\<close>

theorem resolveDNS_failure:
  assumes "dns_resolve E h t = Inl msg"
    and "plain_hostname h"
    and "l = Some False \<or> queryDNSCount st < maxDNS opts"
  shows "fst (resolveDNS E opts h t l st) =
           Throw (Typed (if notfound_test h msg
                         then new_SPFResult SPF_None ''Domain does not exists''
                         else new_SPFResult TempError msg))
       \<and> ((\<exists>pre post. msg = pre @ ''queryTxt ENOTFOUND '' @ h @ post
                    \<or> msg = pre @ ''queryTxt ENODATA '' @ h @ post) \<longrightarrow> notfound_test h msg)
       \<and> ((\<nexists>pre post. msg = pre @ ''queryTxt '' @ post) \<longrightarrow> \<not> notfound_test h msg)
       \<and> (msg \<noteq> [] \<longrightarrow> message (new_SPFResult TempError msg) = msg)"
proof -
  have 1: "fst (resolveDNS E opts h t l st) =
           Throw (Typed (if notfound_test h msg
                         then new_SPFResult SPF_None ''Domain does not exists''
                         else new_SPFResult TempError msg))"
    using assms(1,3) by (cases l) (auto simp: resolveDNS_def Let_def)
  have 2: "notfound_test h msg"
    if "msg = pre @ ''queryTxt ENOTFOUND '' @ h @ post
        \<or> msg = pre @ ''queryTxt ENODATA '' @ h @ post" for pre post
    using that notfound_test_report [of "''ENOTFOUND''" h pre post]
      notfound_test_report [of "''ENODATA''" h pre post]
    by auto
  have 3: "\<not> notfound_test h msg" if "\<nexists>pre post. msg = pre @ ''queryTxt '' @ post"
    using that notfound_test_queryTxt by blast
  show ?thesis
    using 1 2 3 by (auto simp: new_SPFResult_def)
qed

text \<open>The test of the repository for a domain that is not found.\<close>

theorem resolveDNS_failure_witness:
  "dns_resolve (fixture_env nxdomain_txt_zone no_parse) ''example.com'' TXT
     = Inl ''queryTxt ENOTFOUND example.com''
   \<and> plain_hostname ''example.com''
   \<and> queryDNSCount SPF_new < maxDNS default_options
   \<and> fst (resolveDNS (fixture_env nxdomain_txt_zone no_parse) default_options
          ''example.com'' TXT None SPF_new)
       = Throw (Typed (new_SPFResult SPF_None ''Domain does not exists''))"
proof -
  have 1: "dns_resolve (fixture_env nxdomain_txt_zone no_parse) ''example.com'' TXT
     = Inl ''queryTxt ENOTFOUND example.com''"
    by (simp add: fixture_env_def nxdomain_txt_zone_def)
  have 2: "plain_hostname ''example.com''"
    by (simp add: plain_hostname_def plain_char_def)
  have 3: "queryDNSCount SPF_new < maxDNS default_options"
    by (simp add: SPF_new_def default_options_def)
  have 4: "notfound_test ''example.com'' ''queryTxt ENOTFOUND example.com''"
    by (simp add: match_here_def match_code_def)
  have 5: "fst (resolveDNS (fixture_env nxdomain_txt_zone no_parse) default_options
          ''example.com'' TXT None SPF_new)
       = Throw (Typed (new_SPFResult SPF_None ''Domain does not exists''))"
    using resolveDNS_failure [OF 1 2 disjI2 [OF 3], THEN conjunct1, of None]
    by (simp only: 4 if_True)
  show ?thesis
    by (intro conjI 1 2 3 5)
qed

text \<open>
  Claim C6 as the specification states it fails: the not-found report of an A query
  for the queried name is thrown as TempError, not as None.
\<close>

theorem resolveDNS_notfound_A_counterexample:
  "fst (resolveDNS (fixture_env nxdomain_a_zone no_parse) default_options ''example.com'' A None SPF_new)
     = Throw (Typed (new_SPFResult TempError ''queryA ENOTFOUND example.com''))
   \<and> result (new_SPFResult TempError ''queryA ENOTFOUND example.com'') \<noteq> SPF_None"
  by (simp add: resolveDNS_def fixture_env_def nxdomain_a_zone_def
      SPF_new_def default_options_def match_here_def match_code_def new_SPFResult_def)

subsection \<open>The number of SPF records\<close>

lemma fetch_policy_Chunks:
  assumes "queryDNSCount st < maxDNS opts"
    and "dns_resolve E domain TXT = Inr (Chunks rs)"
    and "recs = filter (\<lambda>record. startsWith record (''v=spf'' @ version opts @ '' ''))
                       (map concat rs)"
    and "st1 = st\<lparr>queryDNSCount := queryDNSCount st + 1,
                   trace := trace st @ [Issued domain TXT True (queryDNSCount st + 1)]\<rparr>"
  shows "fetch_policy E opts domain st =
     (if length recs = 0 then
            throw_result SPF_None ''Assume that the domain makes no SPF declarations'' st1
          else if 1 < length recs then
            throw_result PermError ''There should be exactly one record remaining'' st1
          else if non_ascii (last recs) then
            throw_result PermError
              ''Character content of the record should be encoded as US-ASCII'' st1
          else
            (case spfParse E (last recs) of
               Inl msg \<Rightarrow> throw (Untyped msg) st1
             | Inr parsed \<Rightarrow> check_parsed parsed st1))"
proof -
  have "resolveDNS E opts domain TXT None st = (Return (Strings (map concat rs)), st1)"
    using assms(1,2,4) by (simp add: resolveDNS_def Let_def)
  then have "fetch_policy E opts domain st =
      (\<lambda>answer.
       let records = filter (\<lambda>record. startsWith record (''v=spf'' @ version opts @ '' ''))
                       (strings_of answer)
       in if length records = 0 then
            throw_result SPF_None ''Assume that the domain makes no SPF declarations''
          else if 1 < length records then
            throw_result PermError ''There should be exactly one record remaining''
          else if non_ascii (last records) then
            throw_result PermError
              ''Character content of the record should be encoded as US-ASCII''
          else
            (case spfParse E (last records) of
               Inl msg \<Rightarrow> throw (Untyped msg)
             | Inr parsed \<Rightarrow> check_parsed parsed)) (Strings (map concat rs)) st1"
    unfolding fetch_policy_def by (rule await_Return)
  then show ?thesis
    unfolding Let_def strings_of.simps assms(3) [symmetric]
    by (simp split: sum.splits)
qed

text \<open>
  Claim C5. The address and the domain are valid, the TXT lookup of the domain is
  issued and answers with records. When no record begins with the version tag,
  \<^verbatim>\<open>check\<close> returns None; when more than one does, it returns PermError. In both cases
  the object has made exactly one lookup more, the TXT lookup of the domain.
\<close>

theorem check_record_count:
  assumes "ip_isValid E ip" and "tld_isValid E domain"
    and "queryDNSCount st < maxDNS opts"
    and "dns_resolve E domain TXT = Inr (Chunks rs)"
    and "qualifying =
           filter (\<lambda>record. startsWith record (''v=spf'' @ version opts @ '' '')) (map concat rs)"
    and "st1 = st\<lparr>queryDNSCount := queryDNSCount st + 1,
                   trace := trace st @ [Issued domain TXT True (queryDNSCount st + 1)]\<rparr>"
  shows "(qualifying = [] \<longrightarrow>
            check E opts (Suc n) domain ip st =
              (Return (new_SPFResult SPF_None
                 ''Assume that the domain makes no SPF declarations''), st1))
       \<and> (1 < length qualifying \<longrightarrow>
            check E opts (Suc n) domain ip st =
              (Return (new_SPFResult PermError
                 ''There should be exactly one record remaining''), st1))"
proof -
  have fp: "qualifying = [] \<Longrightarrow> fetch_policy E opts domain st =
      (Throw (Typed (new_SPFResult SPF_None
                 ''Assume that the domain makes no SPF declarations'')), st1)"
    and fp2: "1 < length qualifying \<Longrightarrow> fetch_policy E opts domain st =
      (Throw (Typed (new_SPFResult PermError
                 ''There should be exactly one record remaining'')), st1)"
    unfolding fetch_policy_Chunks [OF assms(3,4,5,6)]
    by (auto simp: throw_result_def throw_def)
  have "check E opts (Suc n) domain ip st = (Return r, st1)"
    if "fetch_policy E opts domain st = (Throw (Typed r), st1)" for r
    using assms(1,2) that
    by (simp add: check_def Let_def catch_def getMechanisms_def await_Throw to_result_def
        return_def throw_def)
  then show ?thesis using fp fp2 by blast
qed

text \<open>The test of the repository with two SPF records, on a new object.\<close>

theorem check_record_count_witness:
  "check (fixture_env two_records_zone no_parse) default_options 11 ''example.com'' ''127.0.0.1'' SPF_new
     = (Return (new_SPFResult PermError ''There should be exactly one record remaining''),
        \<lparr> queryDNSCount = 1, warnings = [], trace = [Issued ''example.com'' TXT True 1] \<rparr>)"
  using check_record_count [of "fixture_env two_records_zone no_parse" "''127.0.0.1''" "''example.com''"
      SPF_new default_options
      "[[''v=spf1 '', ''redirect=_spf.example.com''], [''v=spf1 ip4:192.168.0.1/32 -all'']]"
      "[''v=spf1 redirect=_spf.example.com'', ''v=spf1 ip4:192.168.0.1/32 -all'']"
      "\<lparr> queryDNSCount = 1, warnings = [], trace = [Issued ''example.com'' TXT True 1] \<rparr>" 10]
  by (simp add: fixture_env_def two_records_zone_def SPF_new_def default_options_def startsWith_def)

subsection \<open>The list of matched mechanisms\<close>

text \<open>
  Claim C8 does not hold of the code. In the test of the repository for an include that
  matches, the included policy matches with \<^verbatim>\<open>all\<close> and the include is the first match
  of the outer policy. \<^verbatim>\<open>check\<close> returns Pass with \<^verbatim>\<open>mechanism\<close> \<^verbatim>\<open>include\<close>, and its
  \<^verbatim>\<open>matched\<close> is the one-element list \<^verbatim>\<open>all\<close>: \<^verbatim>\<open>_.merge\<close> wrote the inner list over the
  outer one, and the type \<^verbatim>\<open>include\<close> is lost.
\<close>

theorem check_include_matched:
  "check (fixture_env include_zone fixture_parse) default_options 11
     ''example.com'' ''127.0.0.1'' SPF_new
   = (Return \<lparr> result = Pass,
                message = ''Client is authorized to inject mail with the given identity'',
                mechanism = ''include'',
                matched = [''all''] \<rparr>,
      \<lparr> queryDNSCount = 2, warnings = [],
        trace = [Issued ''example.com'' TXT True 1,
                 Issued ''_spf.example.com'' TXT True 2] \<rparr>)"
  by code_simp

lemma merge_overwrites: "src \<noteq> [] \<Longrightarrow> merge [t] src = src"
  by (cases src) (simp_all add: merge_def)

subsection \<open>The search for an included domain\<close>

text \<open>
  Claim C7 does not hold of the code. First zone: example.com includes a.example.com
  with the qualifier \<^verbatim>\<open>-\<close>, and a.example.com includes t.example.com. The search for
  t.example.com finds it in the policy of a.example.com, and \<^verbatim>\<open>checkInclude\<close> returns
  Fail, the outcome of the qualifier. Second zone: example.com includes five domains
  whose policies include nothing. The search for another domain resolves includes that
  it has searched already; the tenth lookup is the last that the limit allows, and
  \<^verbatim>\<open>checkInclude\<close> returns PermError where the six policies of the zone hold no match.
\<close>

theorem checkInclude_misses:
  "checkInclude (fixture_env qualified_zone fixture_parse) default_options 20
     ''example.com'' ''t.example.com'' SPF_new
   = (Return \<lparr> result = Fail,
                message = ''Client is *not* authorized to use the domain in the given identity'',
                mechanism = ''include'',
                matched = [''include''] \<rparr>,
      \<lparr> queryDNSCount = 2, warnings = [],
        trace = [Issued ''example.com'' TXT True 1,
                 Issued ''a.example.com'' TXT True 2] \<rparr>)
   \<and> checkInclude (fixture_env siblings_zone fixture_parse) default_options 40
     ''example.com'' ''other.example.com'' SPF_new
   = (Return \<lparr> result = PermError,
                message = ''Limit of DNS lookups reached'',
                mechanism = ''default'',
                matched = [] \<rparr>,
      \<lparr> queryDNSCount = 10, warnings = [],
        trace = [Issued ''example.com'' TXT True 1,
                 Issued ''i1.example.com'' TXT True 2,
                 Issued ''i2.example.com'' TXT True 3,
                 Issued ''i3.example.com'' TXT True 4,
                 Issued ''i4.example.com'' TXT True 5,
                 Issued ''i5.example.com'' TXT True 6,
                 Issued ''i5.example.com'' TXT True 7,
                 Issued ''i4.example.com'' TXT True 8,
                 Issued ''i5.example.com'' TXT True 9,
                 Issued ''i3.example.com'' TXT True 10,
                 Refused ''i4.example.com'' TXT 10] \<rparr>)"
  by code_simp

subsection \<open>Redirect and all in resolveSPF\<close>

lemma await_return [simp]: "await (return x) k = k x"
  by (rule ext) (simp add: await_def return_def)

lemma await_ReturnE:
  assumes "await m k st = (Return y, st')"
  obtains x st1 where "m st = (Return x, st1)" "k x st1 = (Return y, st')"
  using assms by (cases rule: await_cases [of m st k]) auto

lemma mtype_set [simp]:
  "mtype (set_value v m) = mtype m"
  "mtype (set_resolve r m) = mtype m"
  "mtype (set_address a m) = mtype m"
  "mtype (set_records rs m) = mtype m"
  "mtype (set_exchanges es m) = mtype m"
  "mtype (set_includes incs m) = mtype m"
  "mtype (set_evaluated ev m) = mtype m"
  by (cases m; simp)+

lemma resolve_set [simp]:
  "resolve (set_value v m) = resolve m"
  "resolve (set_resolve r m) = Some r"
  "resolve (set_address a m) = resolve m"
  "resolve (set_records rs m) = resolve m"
  "resolve (set_exchanges es m) = resolve m"
  "resolve (set_includes incs m) = resolve m"
  "resolve (set_evaluated ev m) = resolve m"
  by (cases m; simp)+

lemma mtype_mechanism_of [simp]: "mtype (mechanism_of pm) = ptype pm"
  by (simp add: mechanism_of_def)

lemma resolve_mechanism_of [simp]: "resolve (mechanism_of pm) = None"
  by (simp add: mechanism_of_def)

lemma mtype_attach [simp]:
  "mtype (attach_a_mx h rr m) = mtype m"
  "mtype (attach_include rr m) = mtype m"
  by (simp_all add: attach_a_mx_def attach_include_def Let_def)

lemma prepare_mtype:
  assumes "prepare E h rr pm st = (Return m, st')"
  shows "mtype m = ptype pm" and "st' = st"
  using assms
  by (auto simp: prepare_def resolve_ip_def Let_def return_def throw_result_def throw_def
      await_def split: if_splits option.splits)

lemma prepare_all:
  assumes "ptype pm = ''all''"
  shows "prepare E h rr pm = return (mechanism_of pm)"
  using assms
  by (simp add: prepare_def resolve_ip_def attach_a_mx_def attach_include_def Let_def)

lemma run_resolve_mtype:
  assumes "run_resolve E opts n m st = (Return m', st')"
  shows "mtype m' = mtype m"
proof (cases "resolve m")
  case None
  then show ?thesis using assms by (simp add: return_def)
next
  case (Some r)
  then show ?thesis using assms
    by (cases r) (auto elim!: await_ReturnE simp: return_def)
qed

lemma resolve_loop_all:
  assumes "ptype pm = ''all''"
  shows "resolve_loop E opts n h rr c (pm # post) acc = return (acc @ [mechanism_of pm])"
  using assms by (simp add: is_redirect_def prepare_all is_all_def)

lemma resolve_loop_after_all:
  assumes "ptype pm = ''all''"
  shows "resolve_loop E opts n h rr c (pre @ pm # post) acc
       = resolve_loop E opts n h rr c (pre @ [pm]) acc"
proof (induction pre arbitrary: acc)
  case Nil
  show ?case by (simp only: append_Nil resolve_loop_all [OF assms])
next
  case (Cons p pre)
  show ?case
    by (simp only: append_Cons resolve_loop.simps(2) Cons.IH)
qed

lemma resolve_loop_skips_redirects:
  "resolve_loop E opts n h rr True ms acc
     = resolve_loop E opts n h rr True (filter (\<lambda>p. \<not> is_redirect p) ms) acc"
proof (induction ms arbitrary: acc)
  case Nil
  show ?case by simp
next
  case (Cons p ms)
  show ?case
  proof (cases "is_redirect p")
    case True
    then show ?thesis using Cons.IH by simp
  next
    case False
    then show ?thesis
      by (simp only: filter.simps if_True if_False not_False_eq_True
          resolve_loop.simps(2) Cons.IH [symmetric])
  qed
qed


lemma returnsI: "(\<And>st x st'. m st = (Return x, st') \<Longrightarrow> \<phi> x) \<Longrightarrow> returns m \<phi>"
  by (simp add: returns_def)

lemma returnsD: "returns m \<phi> \<Longrightarrow> m st = (Return x, st') \<Longrightarrow> \<phi> x"
  by (auto simp: returns_def)

lemma returns_return: "\<phi> x \<Longrightarrow> returns (return x) \<phi>"
  by (simp add: returns_def return_def)

lemma returns_throw: "returns (throw e) \<phi>"
  by (simp add: returns_def throw_def)

lemma returns_throw_result: "returns (throw_result r msg) \<phi>"
  by (simp add: throw_result_def returns_throw)

lemma returns_await:
  assumes "returns m \<psi>" and "\<And>x. \<psi> x \<Longrightarrow> returns (k x) \<phi>"
  shows "returns (await m k) \<phi>"
proof (rule returnsI)
  fix st y st'
  assume "await m k st = (Return y, st')"
  then obtain x st1 where 1: "m st = (Return x, st1)" and 2: "k x st1 = (Return y, st')"
    by (rule await_ReturnE)
  from returnsD [OF assms(1) 1] have "\<psi> x" .
  from returnsD [OF assms(2) [OF this] 2] show "\<phi> y" .
qed

lemma returns_if:
  assumes "b \<Longrightarrow> returns m1 \<phi>" and "\<not> b \<Longrightarrow> returns m2 \<phi>"
  shows "returns (if b then m1 else m2) \<phi>"
  using assms by simp

lemma returns_weaken: "returns m \<psi> \<Longrightarrow> (\<And>x. \<psi> x \<Longrightarrow> \<phi> x) \<Longrightarrow> returns m \<phi>"
  by (auto simp: returns_def)

lemma returns_prepare: "returns (prepare E h rr pm) (\<lambda>m. mtype m = ptype pm)"
  by (rule returnsI) (rule prepare_mtype)

lemma returns_run_resolve: "returns (run_resolve E opts n m) (\<lambda>m'. mtype m' = mtype m)"
  by (rule returnsI) (rule run_resolve_mtype)

lemma returns_prefetch:
  "returns (if prefetch opts \<and> resolve m \<noteq> None then run_resolve E opts n m else return m)
     (\<lambda>m'. mtype m' = mtype m)"
  by (intro returns_if returns_run_resolve returns_return refl)

lemma resolve_loop_redirect:
  assumes "is_redirect p"
  shows "resolve_loop E opts n h rr c (p # ps) acc =
     (if \<not> c then
        await (resolveSPF E opts n (pvalue p) rr) (\<lambda>rs.
        resolve_loop E opts n h rr c ps (acc @ rs))
      else resolve_loop E opts n h rr c ps acc)"
  using assms by (simp only: resolve_loop.simps if_True)

lemma resolve_loop_mechanism:
  assumes "\<not> is_redirect p"
  shows "resolve_loop E opts n h rr c (p # ps) acc =
     await (prepare E h rr p) (\<lambda>m2.
     await (if prefetch opts \<and> resolve m2 \<noteq> None
            then run_resolve E opts n m2 else return m2) (\<lambda>m3.
     if is_all m3 then return (acc @ [m3])
     else resolve_loop E opts n h rr c ps (acc @ [m3])))"
  using assms by (simp only: resolve_loop.simps if_False)

lemma resolve_loop_no_redirect:
  assumes "\<And>h. returns (resolveSPF E opts n h rr) no_redirect"
    and "no_redirect acc"
  shows "returns (resolve_loop E opts n h rr c ps acc) no_redirect"
  using assms(2)
proof (induction ps arbitrary: acc)
  case Nil
  then show ?case by (simp add: returns_return)
next
  case (Cons p ps)
  show ?case
  proof (cases "is_redirect p")
    case True
    have "returns (await (resolveSPF E opts n (pvalue p) rr)
             (\<lambda>rs. resolve_loop E opts n h rr c ps (acc @ rs))) no_redirect"
    proof (rule returns_await [OF assms(1)])
      fix rs assume "no_redirect rs"
      with Cons.prems have "no_redirect (acc @ rs)" by (simp add: no_redirect_def)
      then show "returns (resolve_loop E opts n h rr c ps (acc @ rs)) no_redirect"
        by (rule Cons.IH)
    qed
    with Cons.IH [OF Cons.prems] show ?thesis
      unfolding resolve_loop_redirect [OF True] by (cases c) simp_all
  next
    case False
    have step: "returns (if is_all m3 then return (acc @ [m3])
                   else resolve_loop E opts n h rr c ps (acc @ [m3])) no_redirect"
      if "mtype m3 = ptype p" for m3
    proof -
      from that False Cons.prems have "no_redirect (acc @ [m3])"
        by (simp add: no_redirect_def is_redirect_def)
      then show ?thesis by (intro returns_if returns_return Cons.IH)
    qed
    show ?thesis
      unfolding resolve_loop_mechanism [OF False]
      apply (rule returns_await [OF returns_prepare])
      apply (rule returns_await [OF returns_prefetch])
      apply (rule step)
      apply simp
      done
  qed
qed

lemma resolveSPF_no_redirect: "returns (resolveSPF E opts n h rr) no_redirect"
proof (induction n arbitrary: h)
  case 0
  show ?case by (simp add: returns_def)
next
  case (Suc n)
  have "no_redirect []" by (simp add: no_redirect_def)
  then have "returns (resolve_loop E opts n h rr c ps []) no_redirect" for c ps
    by (rule resolve_loop_no_redirect [OF Suc.IH])
  then show ?case
    by (simp add: returns_def await_def split: prod.splits outcome.splits)
qed

lemma resolve_loop_ends_with_all:
  assumes "has_catchAll ps"
  shows "returns (resolve_loop E opts n h rr True ps acc) (ends_with_all acc)"
  using assms
proof (induction ps arbitrary: acc)
  case Nil
  then show ?case by (simp add: has_catchAll_def)
next
  case (Cons p ps)
  show ?case
  proof (cases "ptype p = ''all''")
    case True
    have "ends_with_all acc (acc @ [mechanism_of p])"
      unfolding ends_with_all_def using True
      by (intro exI [of _ "[]"] exI [of _ "mechanism_of p"]) (simp add: is_all_def)
    then show ?thesis
      unfolding resolve_loop_all [OF True] by (rule returns_return)
  next
    case False
    with Cons.prems have ps: "has_catchAll ps" by (simp add: has_catchAll_def)
    show ?thesis
    proof (cases "is_redirect p")
      case True
      show ?thesis
        unfolding resolve_loop_redirect [OF True] using Cons.IH [OF ps] by simp
    next
      case nr: False
      have step: "returns (if is_all m3 then return (acc @ [m3])
                   else resolve_loop E opts n h rr True ps (acc @ [m3])) (ends_with_all acc)"
        if "mtype m3 = ptype p" for m3
      proof -
        from that False have m3: "\<not> is_all m3" by (simp add: is_all_def)
        have "ends_with_all acc ms" if "ends_with_all (acc @ [m3]) ms" for ms
        proof -
          from that obtain mid m where "ms = (acc @ [m3]) @ mid @ [m]" "is_all m"
            "resolve m = None" "list_all (\<lambda>x. \<not> is_all x) mid"
            unfolding ends_with_all_def by blast
          then have "ms = acc @ (m3 # mid) @ [m] \<and> is_all m \<and> resolve m = None
              \<and> list_all (\<lambda>x. \<not> is_all x) (m3 # mid)"
            using m3 by simp
          then show ?thesis unfolding ends_with_all_def by blast
        qed
        then have "returns (resolve_loop E opts n h rr True ps (acc @ [m3])) (ends_with_all acc)"
          by (rule returns_weaken [OF Cons.IH [OF ps]])
        with m3 show ?thesis by simp
      qed
      show ?thesis
        unfolding resolve_loop_mechanism [OF nr]
        apply (rule returns_await [OF returns_prepare])
        apply (rule returns_await [OF returns_prefetch])
        apply (rule step)
        apply simp
        done
    qed
  qed
qed

lemma match_all: "is_all m \<Longrightarrow> match E opts m a = return True"
  by (simp add: match_def is_all_def)

lemma evaluate_all:
  assumes "is_all m" and "resolve m = None"
  shows "evaluate E opts (Suc n) (m # post) addr = matched_result m"
proof -
  have "\<not> is_include m" using assms(1) by (simp add: is_all_def is_include_def)
  then show ?thesis
    using assms(2) by (simp add: lazy_resolve_def match_all [OF assms(1)])
qed

lemma evaluate_after_all:
  assumes "is_all m" and "resolve m = None"
  shows "evaluate E opts (Suc n) (pre @ m # post) addr = evaluate E opts (Suc n) (pre @ [m]) addr"
proof (induction pre)
  case Nil
  show ?case by (simp only: append_Nil evaluate_all [OF assms])
next
  case (Cons p pre)
  show ?case by (simp only: append_Cons evaluate.simps Cons.IH)
qed

text \<open>
  Claim C4. Let the policy hold an \<^verbatim>\<open>all\<close> term. The loop of \<^verbatim>\<open>resolveSPF\<close> does the same
  with the policy as with the policy cut after that term: the same result and the same
  object afterwards, so no lookup is made for a term after it. A list that the
  loop returns for the policy ends with an \<^verbatim>\<open>all\<close> that has nothing to resolve, and holds
  no other \<^verbatim>\<open>all\<close>. \<^verbatim>\<open>evaluate\<close> does the same with a list as with the list cut after such
  an \<^verbatim>\<open>all\<close>: nothing after it is resolved or matched.
\<close>

theorem after_all_unreachable:
  assumes "ptype pm = ''all''"
  shows "resolve_loop E opts n h rr c (pre @ pm # post) acc
           = resolve_loop E opts n h rr c (pre @ [pm]) acc
       \<and> has_catchAll (pre @ pm # post)
       \<and> (\<forall>st ms st'.
            resolve_loop E opts n h rr (has_catchAll (pre @ pm # post)) (pre @ pm # post) [] st
              = (Return ms, st') \<longrightarrow>
            (\<exists>mid m. ms = mid @ [m] \<and> is_all m \<and> resolve m = None
               \<and> list_all (\<lambda>x. \<not> is_all x) mid))
       \<and> (\<forall>m. is_all m \<and> resolve m = None \<longrightarrow>
            evaluate E opts (Suc k) (ms1 @ m # ms2) addr
              = evaluate E opts (Suc k) (ms1 @ [m]) addr)"
proof -
  have c: "has_catchAll (pre @ pm # post)"
    using assms by (simp add: has_catchAll_def)
  have e: "ends_with_all [] ms"
    if "resolve_loop E opts n h rr True (pre @ pm # post) [] st = (Return ms, st')"
    for st ms st'
    using resolve_loop_ends_with_all [OF c] that by (rule returnsD)
  have b: "\<exists>mid m. ms = mid @ [m] \<and> is_all m \<and> resolve m = None
               \<and> list_all (\<lambda>x. \<not> is_all x) mid"
    if "resolve_loop E opts n h rr (has_catchAll (pre @ pm # post)) (pre @ pm # post) [] st
          = (Return ms, st')"
    for st ms st'
  proof -
    from that c
    have "resolve_loop E opts n h rr True (pre @ pm # post) [] st = (Return ms, st')"
      by (simp only: simp_thms)
    from e [OF this] show ?thesis
      unfolding ends_with_all_def append_Nil .
  qed
  have d: "evaluate E opts (Suc k) (ms1 @ m # ms2) addr
              = evaluate E opts (Suc k) (ms1 @ [m]) addr"
    if "is_all m \<and> resolve m = None" for m
    using that by (intro evaluate_after_all) blast+
  from b have b': "\<forall>st ms st'.
            resolve_loop E opts n h rr (has_catchAll (pre @ pm # post)) (pre @ pm # post) [] st
              = (Return ms, st') \<longrightarrow>
            (\<exists>mid m. ms = mid @ [m] \<and> is_all m \<and> resolve m = None
               \<and> list_all (\<lambda>x. \<not> is_all x) mid)"
    by blast
  from d have d': "\<forall>m. is_all m \<and> resolve m = None \<longrightarrow>
            evaluate E opts (Suc k) (ms1 @ m # ms2) addr
              = evaluate E opts (Suc k) (ms1 @ [m]) addr"
    by blast
  show ?thesis
    using resolve_loop_after_all [OF assms] c b' d' by (intro conjI)
qed

text \<open>A policy with the terms version, all and a: the a is not resolved.\<close>

theorem after_all_unreachable_witness:
  "ptype (term_of ''all'' [] ''Fail'') = ''all''
   \<and> resolve_loop (fixture_env redirect_zone fixture_parse) default_options 3 ''example.com'' A True
        ([version_term] @ term_of ''all'' [] ''Fail'' # [term_of ''a'' [] ''Pass'']) []
      = resolve_loop (fixture_env redirect_zone fixture_parse) default_options 3 ''example.com'' A True
        ([version_term] @ [term_of ''all'' [] ''Fail'']) []"
  using after_all_unreachable [of "term_of ''all'' [] ''Fail''"
      "fixture_env redirect_zone fixture_parse" default_options 3 "''example.com''" A True
      "[version_term]" "[term_of ''a'' [] ''Pass'']" "[]"]
  by (simp add: term_of_def)

text \<open>
  Claim C3. \<^verbatim>\<open>resolveSPF\<close> fetches the policy; when the policy holds an \<^verbatim>\<open>all\<close>, its loop
  runs as on the policy without its redirects, so a redirect is not followed; when it
  holds none, the loop meets each redirect with the flag off, resolves the whole list of
  the target and goes on with that list appended to what it has resolved so far. No list
  that \<^verbatim>\<open>resolveSPF\<close> returns holds a mechanism of the type \<^verbatim>\<open>redirect\<close>.
\<close>

theorem redirect_iff_no_all:
  "resolveSPF E opts (Suc n) h rr =
     await (fetch_policy E opts h) (\<lambda>ps.
       if has_catchAll ps
       then resolve_loop E opts n h rr True (filter (\<lambda>p. \<not> is_redirect p) ps) []
       else resolve_loop E opts n h rr False ps [])
   \<and> (is_redirect p \<longrightarrow>
        resolve_loop E opts n h rr False (p # ps) acc =
          await (resolveSPF E opts n (pvalue p) rr) (\<lambda>rs.
          resolve_loop E opts n h rr False ps (acc @ rs)))
   \<and> (\<forall>st ms st'. resolveSPF E opts n h rr st = (Return ms, st') \<longrightarrow>
        list_all (\<lambda>m. mtype m \<noteq> ''redirect'') ms)"
proof -
  have 1: "resolve_loop E opts n h rr (has_catchAll ps) ps [] =
       (if has_catchAll ps
        then resolve_loop E opts n h rr True (filter (\<lambda>p. \<not> is_redirect p) ps) []
        else resolve_loop E opts n h rr False ps [])" for ps
    using resolve_loop_skips_redirects [of E opts n h rr ps "[]"] by simp
  have 2: "resolve_loop E opts n h rr False (p # ps) acc =
          await (resolveSPF E opts n (pvalue p) rr) (\<lambda>rs.
          resolve_loop E opts n h rr False ps (acc @ rs))" if "is_redirect p"
    unfolding resolve_loop_redirect [OF that] by simp
  have 3: "list_all (\<lambda>m. mtype m \<noteq> ''redirect'') ms"
    if "resolveSPF E opts n h rr st = (Return ms, st')" for st ms st'
    using returnsD [OF resolveSPF_no_redirect that] by (simp add: no_redirect_def)
  have 0: "resolveSPF E opts (Suc n) h rr =
     await (fetch_policy E opts h) (\<lambda>ps.
       if has_catchAll ps
       then resolve_loop E opts n h rr True (filter (\<lambda>p. \<not> is_redirect p) ps) []
       else resolve_loop E opts n h rr False ps [])"
    unfolding resolveSPF.simps 1 ..
  from 2 have r2: "is_redirect p \<longrightarrow>
        resolve_loop E opts n h rr False (p # ps) acc =
          await (resolveSPF E opts n (pvalue p) rr) (\<lambda>rs.
          resolve_loop E opts n h rr False ps (acc @ rs))"
    by blast
  from 3 have r3: "\<forall>st ms st'. resolveSPF E opts n h rr st = (Return ms, st') \<longrightarrow>
        list_all (\<lambda>m. mtype m \<noteq> ''redirect'') ms"
    by blast
  show ?thesis
    using 0 r2 r3 by (intro conjI)
qed

lemma redirect_run:
  "resolveSPF (fixture_env redirect_zone fixture_parse) default_options 5 ''example.com'' A SPF_new
     = (Return [mechanism_of version_term, mechanism_of version_term,
                mechanism_of (term_of ''all'' [] ''Pass'')],
        \<lparr> queryDNSCount = 2, warnings = [],
          trace = [Issued ''example.com'' TXT True 1, Issued ''_spf.example.com'' TXT True 2] \<rparr>)"
  by code_simp

lemma both_run:
  "resolveSPF (fixture_env redirect_zone fixture_parse) default_options 5 ''both.example.com'' A SPF_new
     = (Return [mechanism_of version_term, mechanism_of (term_of ''all'' [] ''Fail'')],
        \<lparr> queryDNSCount = 1, warnings = [],
          trace = [Issued ''both.example.com'' TXT True 1] \<rparr>)"
  by code_simp

text \<open>
  The test zone whose policy is a redirect: the list of the target stands in the place
  of the redirect, and no redirect is in the list.
\<close>

theorem redirect_iff_no_all_witness:
  "resolveSPF (fixture_env redirect_zone fixture_parse) default_options 5 ''example.com'' A SPF_new
     = (Return [mechanism_of version_term, mechanism_of version_term,
                mechanism_of (term_of ''all'' [] ''Pass'')],
        \<lparr> queryDNSCount = 2, warnings = [],
          trace = [Issued ''example.com'' TXT True 1, Issued ''_spf.example.com'' TXT True 2] \<rparr>)
   \<and> list_all (\<lambda>m. mtype m \<noteq> ''redirect'')
        [mechanism_of version_term, mechanism_of version_term,
         mechanism_of (term_of ''all'' [] ''Pass'')]"
  using redirect_iff_no_all [THEN conjunct2, THEN conjunct2, rule_format, OF redirect_run]
    redirect_run
  by (intro conjI)


lemma catch_cases:
  obtains (Return) x st1 where "m st = (Return x, st1)" "catch m h st = (Return x, st1)"
  | (Throw) e st1 where "m st = (Throw e, st1)" "catch m h st = h e st1"
  | (OutOfFuel) st1 where "m st = (OutOfFuel, st1)" "catch m h st = (OutOfFuel, st1)"
proof (cases "m st")
  case (Pair r st1)
  then show ?thesis
    by (cases r) (auto simp: catch_def intro: that)
qed

subsection \<open>The counter during a check\<close>

lemma extendsI:
  assumes "trace st' = trace st @ evs" and "queryDNSCount st \<le> queryDNSCount st'"
  shows "extends st st'" and "added st st' = evs"
  using assms by (simp_all add: extends_def added_def)

lemma extends_refl: "extends st st"
  by (simp add: extends_def added_def)

lemma added_refl [simp]: "added st st = []"
  by (simp add: added_def)

lemma extends_trans:
  assumes "extends a b" and "extends b c"
  shows "extends a c" and "added a c = added a b @ added b c"
proof -
  from assms have "trace c = trace a @ (added a b @ added b c)"
    and "queryDNSCount a \<le> queryDNSCount c"
    by (simp_all add: extends_def)
  then show "extends a c" and "added a c = added a b @ added b c"
    by (rule extendsI)+
qed

lemma steady_refl: "counter_ok opts st \<Longrightarrow> steady opts st st"
  by (simp add: steady_def extends_refl)

lemma steady_trans:
  assumes "steady opts a b" and "steady opts b c"
  shows "steady opts a c"
proof -
  from assms have ab: "extends a b" and bc: "extends b c"
    by (simp_all add: steady_def)
  note t = extends_trans [OF ab bc]
  from ab have le: "queryDNSCount a \<le> queryDNSCount b" by (simp add: extends_def)
  from assms le show ?thesis
    unfolding steady_def t(2) using t(1) by (auto simp: list_all_iff)
qed

lemma steady_refused: "steady opts a b \<Longrightarrow> refused_from opts b c \<Longrightarrow> refused_from opts a c"
  unfolding refused_from_def by (blast intro: steady_trans)

lemma keepsI:
  assumes "\<And>st. counter_ok opts st \<Longrightarrow>
     steady opts st (snd (m st))
     \<or> (fst (m st) = Throw (Typed limit_error) \<and> refused_from opts st (snd (m st)))"
  shows "keeps opts m"
  using assms by (simp add: keeps_def)

lemma keepsD:
  assumes "keeps opts m" and "counter_ok opts st"
  shows "steady opts st (snd (m st))
     \<or> (fst (m st) = Throw (Typed limit_error) \<and> refused_from opts st (snd (m st)))"
  using assms by (simp add: keeps_def)

lemma keeps_same:
  assumes "\<And>st. queryDNSCount (snd (m st)) = queryDNSCount st \<and> trace (snd (m st)) = trace st"
  shows "keeps opts m"
proof (rule keepsI)
  fix st assume "counter_ok opts st"
  then have "counter_ok opts (snd (m st))"
    unfolding counter_ok_def assms [of st, THEN conjunct1] assms [of st, THEN conjunct2] .
  moreover have "extends st (snd (m st))" "added st (snd (m st)) = []"
    using assms [of st] by (simp_all add: extends_def added_def)
  ultimately have "steady opts st (snd (m st))"
    by (simp add: steady_def)
  then show "steady opts st (snd (m st))
     \<or> (fst (m st) = Throw (Typed limit_error) \<and> refused_from opts st (snd (m st)))" ..
qed

lemma keeps_return: "keeps opts (return x)"
  by (rule keeps_same) (simp add: return_def)

lemma keeps_throw: "keeps opts (throw e)"
  by (rule keeps_same) (simp add: throw_def)

lemma keeps_throw_result: "keeps opts (throw_result r msg)"
  by (simp add: throw_result_def keeps_throw)

lemma keeps_OutOfFuel: "keeps opts (\<lambda>st. (OutOfFuel, st))"
  by (rule keeps_same) simp

lemma keeps_if: "(b \<Longrightarrow> keeps opts m1) \<Longrightarrow> (\<not> b \<Longrightarrow> keeps opts m2) \<Longrightarrow> keeps opts (if b then m1 else m2)"
  by simp

lemma keeps_await:
  assumes "keeps opts m" and "\<And>x. keeps opts (k x)"
  shows "keeps opts (await m k)"
proof (rule keepsI)
  fix st assume ok: "counter_ok opts st"
  let ?goal = "steady opts st (snd (await m k st))
     \<or> (fst (await m k st) = Throw (Typed limit_error)
         \<and> refused_from opts st (snd (await m k st)))"
  show ?goal
  proof (cases rule: await_cases [of m st k])
    case (Return x st1)
    from keepsD [OF assms(1) ok] Return(1) have s1: "steady opts st st1"
      by simp
    then have "counter_ok opts st1" by (simp add: steady_def)
    from keepsD [OF assms(2) this, of x] show ?thesis
      unfolding Return(2) using s1 by (blast intro: steady_trans steady_refused)
  next
    case (Throw e st1)
    from keepsD [OF assms(1) ok] show ?thesis
      unfolding Throw by simp
  next
    case (OutOfFuel st1)
    from keepsD [OF assms(1) ok] show ?thesis
      unfolding OutOfFuel by simp
  qed
qed

lemma counter_ok_issue:
  assumes "counter_ok opts st"
    and "b \<longrightarrow> queryDNSCount st < maxDNS opts"
    and "n = (if b then queryDNSCount st + 1 else queryDNSCount st)"
  shows "steady opts st (st\<lparr>queryDNSCount := n, trace := trace st @ [Issued h t b n]\<rparr>)"
proof -
  let ?st' = "st\<lparr>queryDNSCount := n, trace := trace st @ [Issued h t b n]\<rparr>"
  have le: "queryDNSCount st \<le> n" using assms(3) by simp
  have "trace ?st' = trace st @ [Issued h t b n]" "queryDNSCount st \<le> queryDNSCount ?st'"
    using le by simp_all
  note e = extendsI [OF this]
  have "counter_ok opts ?st'"
    using assms by (auto simp: counter_ok_def sorted_append list_all_iff)
  then show ?thesis
    unfolding steady_def e(2) using e(1) le by simp
qed

lemma keeps_resolveDNS: "keeps opts (resolveDNS E opts h t l)"
proof (rule keepsI)
  fix st assume ok: "counter_ok opts st"
  define b where "b = (l = None \<or> l = Some True)"
  show "steady opts st (snd (resolveDNS E opts h t l st))
     \<or> (fst (resolveDNS E opts h t l st) = Throw (Typed limit_error)
         \<and> refused_from opts st (snd (resolveDNS E opts h t l st)))"
  proof (cases "b \<and> maxDNS opts \<le> queryDNSCount st")
    case True
    with ok have eq: "queryDNSCount st = maxDNS opts" by (simp add: counter_ok_def)
    have "refused_from opts st (st\<lparr>trace := trace st @ [Refused h t (queryDNSCount st)]\<rparr>)"
      unfolding refused_from_def using steady_refl [OF ok] eq by blast
    with True show ?thesis
      by (simp add: resolveDNS_def b_def limit_error_def)
  next
    case False
    then have lt: "b \<longrightarrow> queryDNSCount st < maxDNS opts" by auto
    define n where "n = (if b then queryDNSCount st + 1 else queryDNSCount st)"
    have "snd (resolveDNS E opts h t l st)
        = st\<lparr>queryDNSCount := n, trace := trace st @ [Issued h t b n]\<rparr>"
      using False by (auto simp: resolveDNS_def b_def n_def Let_def split: sum.splits)
    with counter_ok_issue [OF ok lt n_def] show ?thesis by simp
  qed
qed


lemmas keeps_rules =
  keeps_await keeps_if keeps_return keeps_throw keeps_throw_result keeps_resolveDNS

lemma keeps_resolve_exchanges: "keeps opts (resolve_exchanges E opts rr es)"
proof (induction es)
  case Nil
  show ?case by (simp add: keeps_return)
next
  case (Cons e es)
  obtain p x where e: "e = (p, x)" by (cases e)
  show ?case
    unfolding e resolve_exchanges.simps
    by (intro keeps_rules Cons.IH)
qed

lemma keeps_resolveMX: "keeps opts (resolveMX E opts h rr)"
proof -
  have "keeps opts (case x of
         Exchanges es \<Rightarrow>
           if maxDNS opts \<le> length es then
             throw_result PermError ''Limit of DNS lookups reached when processing MX mechanism''
           else
             await (resolve_exchanges E opts rr es) (\<lambda>xs.
             return (sort_key priority xs))
       | _ \<Rightarrow> throw (Untyped ''exchange of a record that is not an MX record''))" for x
    by (cases x) (auto intro!: keeps_rules keeps_resolve_exchanges)
  then show ?thesis
    unfolding resolveMX_def by (intro keeps_rules)
qed

lemma keeps_add_warnings: "keeps opts (add_warnings ws)"
  by (rule keeps_same) (simp add: add_warnings_def)

lemma keeps_check_parsed: "keeps opts (check_parsed p)"
  unfolding check_parsed_def by (intro keeps_rules keeps_add_warnings)

lemma keeps_fetch_policy: "keeps opts (fetch_policy E opts h)"
proof -
  have "keeps opts (case x of Inl msg \<Rightarrow> throw (Untyped msg) | Inr parsed \<Rightarrow> check_parsed parsed)"
    for x :: "string + parsed"
    by (cases x) (auto intro!: keeps_rules keeps_check_parsed)
  then show ?thesis
    unfolding fetch_policy_def Let_def by (intro keeps_rules)
qed

lemma keeps_resolve_ip: "keeps opts (resolve_ip E m)"
proof -
  have "keeps opts (case x of
             None \<Rightarrow> throw_result PermError msg
           | Some a \<Rightarrow> return (set_address a m1))" for x msg m1
    by (cases x) (auto intro!: keeps_rules)
  then show ?thesis
    unfolding resolve_ip_def Let_def by (intro keeps_rules)
qed

lemma keeps_prepare: "keeps opts (prepare E h rr pm)"
  unfolding prepare_def by (intro keeps_rules keeps_resolve_ip)

lemma keeps_run_resolve:
  assumes "\<And>h rr. keeps opts (resolveSPF E opts n h rr)"
  shows "keeps opts (run_resolve E opts n m)"
proof (cases "resolve m")
  case None
  then show ?thesis by (simp add: keeps_return)
next
  case (Some r)
  then show ?thesis
    by (cases r) (auto intro!: keeps_rules keeps_resolveMX assms)
qed

lemma keeps_resolve_loop:
  assumes "\<And>h rr. keeps opts (resolveSPF E opts n h rr)"
  shows "keeps opts (resolve_loop E opts n h rr c ps acc)"
proof (induction ps arbitrary: acc)
  case Nil
  show ?case by (simp add: keeps_return)
next
  case (Cons p ps)
  show ?case
  proof (cases "is_redirect p")
    case True
    show ?thesis
      unfolding resolve_loop_redirect [OF True]
      by (intro keeps_rules assms Cons.IH)
  next
    case False
    show ?thesis
      unfolding resolve_loop_mechanism [OF False]
      by (intro keeps_rules keeps_prepare keeps_run_resolve assms Cons.IH)
  qed
qed

lemma keeps_resolveSPF: "keeps opts (resolveSPF E opts n h rr)"
proof (induction n arbitrary: h rr)
  case 0
  show ?case by (simp add: keeps_OutOfFuel)
next
  case (Suc n)
  show ?case
    unfolding resolveSPF.simps
    by (intro keeps_rules keeps_fetch_policy keeps_resolve_loop Suc.IH)
qed

lemma keeps_match: "keeps opts (match E opts m a)"
  by (rule keeps_same)
     (auto simp: match_def return_def throw_def throw_result_def
       split: option.splits list.splits prod.splits)

lemma keeps_matched_result: "keeps opts (matched_result m)"
  by (rule keeps_same)
     (auto simp: matched_result_def Let_def return_def throw_def split: option.splits)

lemma keeps_lazy_resolve: "keeps opts (lazy_resolve E opts n m)"
  unfolding lazy_resolve_def
  by (intro keeps_rules keeps_run_resolve keeps_resolveSPF)

lemma keeps_evaluate: "keeps opts (evaluate E opts n ms addr)"
proof (induction n arbitrary: ms)
  case 0
  show ?case by (simp add: keeps_OutOfFuel)
next
  case (Suc n)
  show ?case
  proof (induction ms)
    case Nil
    show ?case by (simp add: keeps_return)
  next
    case (Cons m ms)
    have inc: "keeps opts (case includes' m1 of
                 None \<Rightarrow> throw (Untyped ''TypeError: mechanisms is undefined'')
               | Some incs \<Rightarrow>
                   await (evaluate E opts n incs addr) (\<lambda>r. return (set_evaluated r m1)))" for m1
      by (cases "includes' m1") (auto intro!: keeps_rules Suc.IH)
    show ?case
      unfolding evaluate.simps
      by (intro keeps_rules keeps_lazy_resolve inc keeps_match keeps_matched_result Cons.IH)
  qed
qed


lemma keeps_catch:
  assumes "keeps opts m" and "\<And>e. keeps opts (h e)"
    and "h (Typed limit_error) = throw (Typed limit_error)"
  shows "keeps opts (catch m h)"
proof (rule keepsI)
  fix st assume ok: "counter_ok opts st"
  let ?goal = "steady opts st (snd (catch m h st))
     \<or> (fst (catch m h st) = Throw (Typed limit_error)
         \<and> refused_from opts st (snd (catch m h st)))"
  show ?goal
  proof (cases rule: catch_cases [of m st h])
    case (Return x st1)
    from keepsD [OF assms(1) ok] show ?thesis
      unfolding Return by simp
  next
    case (Throw e st1)
    from keepsD [OF assms(1) ok]
    consider "steady opts st st1" | "e = Typed limit_error" "refused_from opts st st1"
      unfolding Throw by auto
    then show ?thesis
    proof cases
      case 1
      then have "counter_ok opts st1" by (simp add: steady_def)
      from keepsD [OF assms(2) this, of e] show ?thesis
        unfolding Throw(2) using 1 by (blast intro: steady_trans steady_refused)
    next
      case 2
      then show ?thesis
        unfolding Throw(2) by (simp add: assms(3) throw_def)
    qed
  next
    case (OutOfFuel st1)
    from keepsD [OF assms(1) ok] show ?thesis
      unfolding OutOfFuel by simp
  qed
qed

lemma keeps_getMechanisms: "keeps opts (getMechanisms E opts n domain rr)"
proof -
  have "keeps opts (case e of Typed r \<Rightarrow> throw e | Untyped msg \<Rightarrow> throw_result TempError msg)"
    for e
    by (cases e) (auto intro!: keeps_rules)
  then have "keeps opts (catch (resolveSPF E opts n domain rr)
              (\<lambda>err. case err of
                 Typed r \<Rightarrow> throw err
               | Untyped msg \<Rightarrow> throw_result TempError msg))"
    by (intro keeps_catch keeps_resolveSPF) simp_all
  then show ?thesis
    unfolding getMechanisms_def by (intro keeps_rules)
qed

lemma check_keeps:
  assumes "counter_ok opts st" and "check E opts n domain ip st = (r, st')"
  shows "steady opts st st' \<or> (r = Return limit_error \<and> refused_from opts st st')"
proof (cases "ip_isValid E ip \<and> tld_isValid E domain")
  case False
  then have "st' = st" using assms(2) by (auto simp: check_def return_def split: if_splits)
  then show ?thesis using steady_refl [OF assms(1)] by simp
next
  case True
  define inner where "inner = await (getMechanisms E opts n domain
      (if fst (ip_parse E ip) = IPv4 then A else AAAA)) (\<lambda>ms. evaluate E opts n ms (ip_parse E ip))"
  have k: "keeps opts inner"
    unfolding inner_def by (intro keeps_rules keeps_getMechanisms keeps_evaluate)
  have c: "check E opts n domain ip st = catch inner to_result st"
    using True by (simp add: check_def inner_def Let_def)
  show ?thesis
  proof (cases rule: catch_cases [of inner st to_result])
    case (Return x st1)
    with keepsD [OF k assms(1)] assms(2) c show ?thesis by auto
  next
    case (Throw e st1)
    have "to_result e st1 = (r, st')" using assms(2) c Throw(2) by simp
    then have "st' = st1" and "e = Typed limit_error \<Longrightarrow> r = Return limit_error"
      by (auto simp: to_result_def return_def split: exn.splits)
    with keepsD [OF k assms(1)] Throw(1) show ?thesis by auto
  next
    case (OutOfFuel st1)
    with keepsD [OF k assms(1)] assms(2) c show ?thesis by auto
  qed
qed

lemma counter_ok_new: "counter_ok opts SPF_new"
  by (simp add: counter_ok_def SPF_new_def)

lemma steady_run:
  assumes "counter_ok opts st" and "steady opts st st'"
  shows "counter_ok opts st'"
    and "extends st st'"
    and "sorted (map ev_count (added st st'))"
    and "list_all (\<lambda>e. queryDNSCount st \<le> ev_count e \<and> ev_count e \<le> queryDNSCount st')
           (added st st')"
    and "queryDNSCount st' = queryDNSCount st + length (filter budgeted (added st st'))"
    and "queryDNSCount st' \<le> maxDNS opts"
    and "list_all (\<lambda>e. \<not> is_refused e) (added st st')"
proof -
  from assms(2) show ok: "counter_ok opts st'" and e: "extends st st'"
    by (simp_all add: steady_def)
  from e have t: "trace st' = trace st @ added st st'" by (simp add: extends_def)
  from ok have "sorted (map ev_count (trace st'))" by (simp add: counter_ok_def)
  then show "sorted (map ev_count (added st st'))"
    unfolding t by (simp add: sorted_append)
  from ok have "list_all (\<lambda>e. ev_count e \<le> queryDNSCount st') (trace st')"
    unfolding counter_ok_def by blast
  then have "list_all (\<lambda>e. ev_count e \<le> queryDNSCount st') (added st st')"
    unfolding t by simp
  with assms(2)
  show "list_all (\<lambda>e. queryDNSCount st \<le> ev_count e \<and> ev_count e \<le> queryDNSCount st')
           (added st st')"
    by (simp add: steady_def list_all_iff)
  from ok have "queryDNSCount st' = length (filter budgeted (trace st'))"
    by (simp add: counter_ok_def)
  also have "\<dots> = length (filter budgeted (trace st)) + length (filter budgeted (added st st'))"
    unfolding t by simp
  also from assms(1) have "length (filter budgeted (trace st)) = queryDNSCount st"
    by (simp add: counter_ok_def)
  finally show "queryDNSCount st' = queryDNSCount st + length (filter budgeted (added st st'))" .
  from ok show "queryDNSCount st' \<le> maxDNS opts" by (simp add: counter_ok_def)
  from assms(2) show "list_all (\<lambda>e. \<not> is_refused e) (added st st')"
    by (simp add: steady_def list_all_iff)
qed

lemma refused_run:
  assumes "counter_ok opts st" and "refused_from opts st st'"
  shows "counter_ok opts st'"
    and "extends st st'"
    and "sorted (map ev_count (added st st'))"
    and "list_all (\<lambda>e. queryDNSCount st \<le> ev_count e \<and> ev_count e \<le> queryDNSCount st')
           (added st st')"
    and "queryDNSCount st' = queryDNSCount st + length (filter budgeted (added st st'))"
    and "queryDNSCount st' \<le> maxDNS opts"
    and "\<exists>h t. added st st' = butlast (added st st') @ [Refused h t (maxDNS opts)]"
    and "list_all (\<lambda>e. \<not> is_refused e) (butlast (added st st'))"
proof -
  from assms(2) obtain st0 h t where s: "steady opts st st0"
    and m: "queryDNSCount st0 = maxDNS opts"
    and st': "st' = st0\<lparr>trace := trace st0 @ [Refused h t (queryDNSCount st0)]\<rparr>"
    unfolding refused_from_def by blast
  note r = steady_run [OF assms(1) s]
  have "trace st' = trace st0 @ [Refused h t (maxDNS opts)]"
    and "queryDNSCount st0 \<le> queryDNSCount st'"
    by (simp_all add: st' m)
  note e0 = extendsI [OF this]
  note e = extends_trans [OF r(2) e0(1)]
  have a: "added st st' = added st st0 @ [Refused h t (maxDNS opts)]"
    unfolding e(2) e0(2) ..
  have c: "queryDNSCount st' = maxDNS opts" by (simp add: st' m)
  from r(1) m show "counter_ok opts st'"
    by (auto simp: st' counter_ok_def sorted_append list_all_iff)
  show "extends st st'" by (rule e(1))
  from r(3) r(4) m show "sorted (map ev_count (added st st'))"
    unfolding a by (auto simp: sorted_append list_all_iff)
  from r(4) r(6) m r(5) show "list_all (\<lambda>e. queryDNSCount st \<le> ev_count e \<and> ev_count e \<le> queryDNSCount st')
           (added st st')"
    unfolding a c by (auto simp: list_all_iff)
  from r(5) m show "queryDNSCount st' = queryDNSCount st + length (filter budgeted (added st st'))"
    unfolding a c by simp
  show "queryDNSCount st' \<le> maxDNS opts" by (simp add: c)
  show "\<exists>h t. added st st' = butlast (added st st') @ [Refused h t (maxDNS opts)]"
    unfolding a by simp
  from r(7) show "list_all (\<lambda>e. \<not> is_refused e) (butlast (added st st'))"
    unfolding a by simp
qed

lemma keeps_extends:
  assumes "keeps opts m" and "counter_ok opts st"
  shows "counter_ok opts (snd (m st))" and "extends st (snd (m st))"
  using keepsD [OF assms] steady_run(1,2) [OF assms(2)] refused_run(1,2) [OF assms(2)]
  by blast+

lemma keeps_Return:
  assumes "keeps opts m" and "counter_ok opts st" and "m st = (Return x, st1)"
  shows "counter_ok opts st1" and "extends st st1"
  using keeps_extends [OF assms(1,2)] assms(3) by simp_all

text \<open>The counter during a search for an included domain.\<close>

lemma keeps_try_resolve: "keeps opts (try_resolve E opts n m)"
proof -
  let ?h = "\<lambda>err. case err of
             Typed r \<Rightarrow> if result r = SPF_None then return None else throw err
           | Untyped msg \<Rightarrow> return (Some m)"
  have h: "keeps opts (?h e)" for e
    by (cases e) (auto intro!: keeps_rules)
  have l: "?h (Typed limit_error) = throw (Typed limit_error)"
    by (simp add: limit_error_def new_SPFResult_def)
  have "keeps opts (catch (await (run_resolve E opts n m) (\<lambda>m1. return (Some m1))) ?h)"
  proof (rule keeps_catch)
    show "keeps opts (await (run_resolve E opts n m) (\<lambda>m1. return (Some m1)))"
      by (intro keeps_rules keeps_run_resolve keeps_resolveSPF)
    show "keeps opts (?h e)" for e by (rule h)
    show "?h (Typed limit_error) = throw (Typed limit_error)" by (rule l)
  qed
  then show ?thesis
    unfolding try_resolve_def by (intro keeps_rules)
qed

lemma keeps_match_evaluated: "keeps opts (match_evaluated E opts m)"
  unfolding match_evaluated_def
  by (cases "evaluated m") (auto intro!: keeps_rules keeps_match)

lemma keeps_search_step:
  assumes "\<And>ms arr. keeps opts (evaluateInclude E opts n ms d arr)"
  shows "keeps opts (search_step E opts n d l i m1)"
  unfolding search_step_def
  by (cases "includes' m1") (auto intro!: keeps_rules assms)

lemma include_loop_step:
  "include_loop E opts (Suc n) d l i =
     (if \<not> i < length l then return (new_SPFResult Fail [])
      else
        await (try_resolve E opts n (l ! i)) (\<lambda>r.
        case r of
          None \<Rightarrow> include_loop E opts n d l (Suc i)
        | Some m1 \<Rightarrow>
            await (search_step E opts n d l i m1) (\<lambda>(m2, l2).
            await (match_evaluated E opts m2) (\<lambda>b.
            if b then matched_result m2
            else include_loop E opts n d l2 (Suc i)))))"
  unfolding include_loop.simps search_step_def ..

lemma evaluate_step:
  "evaluate E opts (Suc n) (m # ms) addr =
     await (lazy_resolve E opts n m) (\<lambda>m1.
     await (include_step E opts n addr m1) (\<lambda>m2.
     await (match E opts m2 (Some addr)) (\<lambda>b.
     if b then matched_result m2 else evaluate E opts (Suc n) ms addr)))"
  by (simp add: include_step_def)

lemma keeps_include_step: "keeps opts (include_step E opts n addr m1)"
  unfolding include_step_def
  by (cases "includes' m1") (auto intro!: keeps_rules keeps_evaluate)

lemma keeps_include_search:
  "keeps opts (evaluateInclude E opts n ms d arr) \<and> keeps opts (include_loop E opts n d l i)"
proof (induction n arbitrary: ms arr l i)
  case 0
  show ?case by (simp add: keeps_OutOfFuel)
next
  case (Suc n)
  have e: "keeps opts (evaluateInclude E opts n ms d arr)" for ms arr
    using Suc.IH by blast
  have l: "keeps opts (include_loop E opts n d l i)" for l i
    using Suc.IH by blast
  have k: "keeps opts (case x of (m2, l2) \<Rightarrow>
            await (match_evaluated E opts m2) (\<lambda>b.
            if b then matched_result m2
            else include_loop E opts n d l2 (Suc i)))" for x i
    by (cases x) (auto intro!: keeps_rules keeps_match_evaluated keeps_matched_result l)
  have r: "keeps opts (case r of
          None \<Rightarrow> include_loop E opts n d l (Suc i)
        | Some m1 \<Rightarrow>
            await (search_step E opts n d l i m1) (\<lambda>(m2, l2).
            await (match_evaluated E opts m2) (\<lambda>b.
            if b then matched_result m2
            else include_loop E opts n d l2 (Suc i))))" for r l i
    by (cases r) (simp_all add: l keeps_await [OF keeps_search_step [OF e] k])
  have 1: "keeps opts (evaluateInclude E opts (Suc n) ms d arr)"
    unfolding evaluateInclude.simps Let_def by (intro keeps_rules l)
  have 2: "keeps opts (include_loop E opts (Suc n) d l i)"
    unfolding include_loop_step by (intro keeps_rules keeps_try_resolve r)
  from 1 2 show ?case ..
qed

lemma keeps_evaluateInclude: "keeps opts (evaluateInclude E opts n ms d arr)"
  using keeps_include_search [of opts E n ms d arr] by blast

lemma keeps_include_loop: "keeps opts (include_loop E opts n d l i)"
  using keeps_include_search [of opts E n _ d _ l i] by blast

lemma to_result_keeps:
  assumes "keeps opts inner" and "counter_ok opts st"
    and "catch inner to_result st = (r, st')"
  shows "steady opts st st' \<or> (r = Return limit_error \<and> refused_from opts st st')"
proof (cases rule: catch_cases [of inner st to_result])
  case (Return x st1)
  with keepsD [OF assms(1,2)] assms(3) show ?thesis by auto
next
  case (Throw e st1)
  have "to_result e st1 = (r, st')" using assms(3) Throw(2) by simp
  then have "st' = st1" and "e = Typed limit_error \<Longrightarrow> r = Return limit_error"
    by (auto simp: to_result_def return_def split: exn.splits)
  with keepsD [OF assms(1,2)] Throw(1) show ?thesis by auto
next
  case (OutOfFuel st1)
  with keepsD [OF assms(1,2)] assms(3) show ?thesis by auto
qed

lemma checkInclude_keeps:
  assumes "counter_ok opts st" and "checkInclude E opts n domain required st = (r, st')"
  shows "steady opts st st' \<or> (r = Return limit_error \<and> refused_from opts st st')"
proof (cases "tld_isValid E domain")
  case False
  then have "st' = st" using assms(2) by (auto simp: checkInclude_def return_def)
  then show ?thesis using steady_refl [OF assms(1)] by simp
next
  case True
  define inner where "inner = await (getMechanisms E opts n domain A)
     (\<lambda>ms. evaluateInclude E opts n ms required [])"
  have k: "keeps opts inner"
    unfolding inner_def by (intro keeps_rules keeps_getMechanisms keeps_evaluateInclude)
  have "catch inner to_result st = (r, st')"
    using True assms(2) by (simp add: checkInclude_def inner_def)
  then show ?thesis by (rule to_result_keeps [OF k assms(1)])
qed

subsection \<open>Enough fuel\<close>

lemma plainI:
  "(\<And>st. fst (m st) \<noteq> OutOfFuel \<and> queryDNSCount st \<le> queryDNSCount (snd (m st))) \<Longrightarrow> plain m"
  by (simp add: plain_def)

lemma plainD:
  "plain m \<Longrightarrow> fst (m st) \<noteq> OutOfFuel \<and> queryDNSCount st \<le> queryDNSCount (snd (m st))"
  by (simp add: plain_def)

lemma plain_return: "plain (return x)"
  by (simp add: plain_def return_def)

lemma plain_throw: "plain (throw e)"
  by (simp add: plain_def throw_def)

lemma plain_throw_result: "plain (throw_result r msg)"
  by (simp add: throw_result_def plain_throw)

lemma plain_if: "(b \<Longrightarrow> plain m1) \<Longrightarrow> (\<not> b \<Longrightarrow> plain m2) \<Longrightarrow> plain (if b then m1 else m2)"
  by simp

lemma plain_await:
  assumes "plain m" and "\<And>x. plain (k x)"
  shows "plain (await m k)"
proof (rule plainI)
  fix st
  show "fst (await m k st) \<noteq> OutOfFuel
      \<and> queryDNSCount st \<le> queryDNSCount (snd (await m k st))"
  proof (cases rule: await_cases [of m st k])
    case (Return x st1)
    from plainD [OF assms(1), of st] plainD [OF assms(2), of x st1] show ?thesis
      unfolding Return by simp
  next
    case (Throw e st1)
    from plainD [OF assms(1), of st] show ?thesis unfolding Throw by simp
  next
    case (OutOfFuel st1)
    from plainD [OF assms(1), of st] show ?thesis unfolding OutOfFuel by simp
  qed
qed

lemma plain_resolveDNS: "plain (resolveDNS E opts h t l)"
  by (rule plainI) (auto simp: resolveDNS_def Let_def split: sum.splits)

lemmas plain_rules =
  plain_await plain_if plain_return plain_throw plain_throw_result plain_resolveDNS

lemma plain_resolve_exchanges: "plain (resolve_exchanges E opts rr es)"
proof (induction es)
  case Nil
  show ?case by (simp add: plain_return)
next
  case (Cons e es)
  obtain p x where e: "e = (p, x)" by (cases e)
  show ?case
    unfolding e resolve_exchanges.simps by (intro plain_rules Cons.IH)
qed

lemma plain_resolveMX: "plain (resolveMX E opts h rr)"
proof -
  have "plain (case x of
         Exchanges es \<Rightarrow>
           if maxDNS opts \<le> length es then
             throw_result PermError ''Limit of DNS lookups reached when processing MX mechanism''
           else
             await (resolve_exchanges E opts rr es) (\<lambda>xs.
             return (sort_key priority xs))
       | _ \<Rightarrow> throw (Untyped ''exchange of a record that is not an MX record''))" for x
    by (cases x) (auto intro!: plain_rules plain_resolve_exchanges)
  then show ?thesis
    unfolding resolveMX_def by (intro plain_rules)
qed

lemma plain_add_warnings: "plain (add_warnings ws)"
  by (simp add: plain_def add_warnings_def)

lemma plain_check_parsed: "plain (check_parsed p)"
  unfolding check_parsed_def by (intro plain_rules plain_add_warnings)

lemma plain_fetch_policy: "plain (fetch_policy E opts h)"
proof -
  have "plain (case x of Inl msg \<Rightarrow> throw (Untyped msg) | Inr parsed \<Rightarrow> check_parsed parsed)"
    for x :: "string + parsed"
    by (cases x) (auto intro!: plain_rules plain_check_parsed)
  then show ?thesis
    unfolding fetch_policy_def Let_def by (intro plain_rules)
qed

lemma plain_prepare: "plain (prepare E h rr pm)"
  by (rule plainI)
     (auto simp: prepare_def resolve_ip_def Let_def return_def throw_result_def throw_def
       await_def split: option.splits)

lemma plain_match: "plain (match E opts m a)"
  by (rule plainI)
     (auto simp: match_def return_def throw_def throw_result_def
       split: option.splits list.splits prod.splits)

lemma plain_matched_result: "plain (matched_result m)"
  by (rule plainI)
     (auto simp: matched_result_def Let_def return_def throw_def split: option.splits)

text \<open>What a budgeted lookup that returns has spent.\<close>

lemma spendsI:
  "(\<And>st x st'. m st = (Return x, st') \<Longrightarrow>
      queryDNSCount st < maxDNS opts \<and> queryDNSCount st < queryDNSCount st') \<Longrightarrow> spends opts m"
  by (simp add: spends_def)

lemma spendsD:
  "spends opts m \<Longrightarrow> m st = (Return x, st') \<Longrightarrow>
      queryDNSCount st < maxDNS opts \<and> queryDNSCount st < queryDNSCount st'"
  by (simp add: spends_def)

lemma spends_resolveDNS: "spends opts (resolveDNS E opts h t None)"
  by (rule spendsI) (auto simp: resolveDNS_def Let_def split: sum.splits if_splits)

lemma spends_await:
  assumes "spends opts m" and "\<And>x. plain (k x)"
  shows "spends opts (await m k)"
proof (rule spendsI)
  fix st y st'
  assume "await m k st = (Return y, st')"
  then obtain x st1 where 1: "m st = (Return x, st1)" and 2: "k x st1 = (Return y, st')"
    by (rule await_ReturnE)
  from spendsD [OF assms(1) 1] plainD [OF assms(2), of x st1] 2
  show "queryDNSCount st < maxDNS opts \<and> queryDNSCount st < queryDNSCount st'"
    by simp
qed

lemma plain_fetch_rest:
  "plain (\<lambda>st. (let records = filter P (strings_of answer)
       in if length records = 0 then
            throw_result SPF_None ''Assume that the domain makes no SPF declarations''
          else if 1 < length records then
            throw_result PermError ''There should be exactly one record remaining''
          else if non_ascii (last records) then
            throw_result PermError
              ''Character content of the record should be encoded as US-ASCII''
          else
            (case spfParse E (last records) of
               Inl msg \<Rightarrow> throw (Untyped msg)
             | Inr parsed \<Rightarrow> check_parsed parsed)) st)"
proof -
  have "plain (case x of Inl msg \<Rightarrow> throw (Untyped msg) | Inr parsed \<Rightarrow> check_parsed parsed)"
    for x :: "string + parsed"
    by (cases x) (auto intro!: plain_rules plain_check_parsed)
  then show ?thesis
    unfolding Let_def by (intro plain_rules)
qed

lemma spends_fetch_policy: "spends opts (fetch_policy E opts h)"
  unfolding fetch_policy_def
  by (rule spends_await [OF spends_resolveDNS]) (rule plain_fetch_rest)

lemma plain_resolveSPF_0: "plain m \<Longrightarrow> queryDNSCount st \<le> queryDNSCount (snd (m st))"
  by (simp add: plain_def)

lemma mono_await:
  assumes "\<And>st. queryDNSCount st \<le> queryDNSCount (snd (m st))"
    and "\<And>x st. queryDNSCount st \<le> queryDNSCount (snd (k x st))"
  shows "queryDNSCount st \<le> queryDNSCount (snd (await m k st))"
  by (rule preserves_await [where R = "\<lambda>a b. queryDNSCount a \<le> queryDNSCount b"])
     (auto intro: assms order_trans)

lemma run_resolve_mono:
  assumes "\<And>h rr st. queryDNSCount st \<le> queryDNSCount (snd (resolveSPF E opts n h rr st))"
  shows "queryDNSCount st \<le> queryDNSCount (snd (run_resolve E opts n m st))"
proof (cases "resolve m")
  case None
  then show ?thesis by (simp add: return_def)
next
  case (Some r)
  show ?thesis
  proof (cases r)
    case (ResolveA h rr)
    have "queryDNSCount st \<le> queryDNSCount (snd (await (resolveDNS E opts h rr None)
        (\<lambda>recs. return (set_records recs m)) st))"
      by (rule mono_await) (simp_all add: plain_resolveSPF_0 [OF plain_resolveDNS] return_def)
    with Some ResolveA show ?thesis by simp
  next
    case (ResolveMX h rr)
    have "queryDNSCount st \<le> queryDNSCount (snd (await (resolveMX E opts h rr)
        (\<lambda>xs. return (set_exchanges xs m)) st))"
      by (rule mono_await) (simp_all add: plain_resolveSPF_0 [OF plain_resolveMX] return_def)
    with Some ResolveMX show ?thesis by simp
  next
    case (ResolveInclude h rr)
    have "queryDNSCount st \<le> queryDNSCount (snd (await (resolveSPF E opts n h rr)
        (\<lambda>incs. return (set_includes incs m)) st))"
      by (rule mono_await) (simp_all add: assms return_def)
    with Some ResolveInclude show ?thesis by simp
  qed
qed

lemma resolve_loop_mono:
  assumes "\<And>h rr st. queryDNSCount st \<le> queryDNSCount (snd (resolveSPF E opts n h rr st))"
  shows "queryDNSCount st \<le> queryDNSCount (snd (resolve_loop E opts n h rr c ps acc st))"
proof (induction ps arbitrary: acc st)
  case Nil
  show ?case by (simp add: return_def)
next
  case (Cons p ps)
  show ?case
  proof (cases "is_redirect p")
    case True
    have "queryDNSCount st \<le> queryDNSCount (snd (await (resolveSPF E opts n (pvalue p) rr)
            (\<lambda>rs. resolve_loop E opts n h rr c ps (acc @ rs)) st))"
      by (intro mono_await assms Cons.IH)
    then show ?thesis
      unfolding resolve_loop_redirect [OF True] using Cons.IH [of st acc] by (cases c) simp_all
  next
    case False
    have step: "queryDNSCount st \<le> queryDNSCount (snd ((if is_all m3 then return (acc @ [m3])
                   else resolve_loop E opts n h rr c ps (acc @ [m3])) st))" for m3 st
      by (auto intro!: Cons.IH simp: return_def)
    have pre: "queryDNSCount st \<le> queryDNSCount (snd ((if prefetch opts \<and> resolve m2 \<noteq> None
            then run_resolve E opts n m2 else return m2) st))" for m2 st
      using run_resolve_mono [OF assms, of st m2] by (auto simp: return_def)
    show ?thesis
      unfolding resolve_loop_mechanism [OF False]
      by (intro mono_await plain_resolveSPF_0 [OF plain_prepare] pre step)
  qed
qed

lemma resolveSPF_mono:
  "queryDNSCount st \<le> queryDNSCount (snd (resolveSPF E opts n h rr st))"
proof (induction n arbitrary: h rr st)
  case 0
  show ?case by simp
next
  case (Suc n)
  show ?case
    unfolding resolveSPF.simps
    by (intro mono_await plain_resolveSPF_0 [OF plain_fetch_policy] resolve_loop_mono Suc.IH)
qed

lemma spends_resolveSPF: "spends opts (resolveSPF E opts n h rr)"
proof (cases n)
  case 0
  then show ?thesis by (simp add: spends_def)
next
  case (Suc k)
  show ?thesis
  proof (rule spendsI)
    fix st y st'
    assume "resolveSPF E opts n h rr st = (Return y, st')"
    then obtain ps st1 where 1: "fetch_policy E opts h st = (Return ps, st1)"
      and 2: "resolve_loop E opts k h rr (has_catchAll ps) ps [] st1 = (Return y, st')"
      unfolding Suc resolveSPF.simps by (rule await_ReturnE)
    from resolve_loop_mono [OF resolveSPF_mono, of st1 E opts k h rr "has_catchAll ps" ps "[]"] 2
    have "queryDNSCount st1 \<le> queryDNSCount st'" by simp
    with spendsD [OF spends_fetch_policy 1]
    show "queryDNSCount st < maxDNS opts \<and> queryDNSCount st < queryDNSCount st'"
      by simp
  qed
qed

lemma totalI:
  "(\<And>st. enough opts n st \<Longrightarrow>
      fst (m st) \<noteq> OutOfFuel \<and> queryDNSCount st \<le> queryDNSCount (snd (m st))) \<Longrightarrow> total opts n m"
  by (simp add: total_def)

lemma totalD:
  "total opts n m \<Longrightarrow> enough opts n st \<Longrightarrow>
     fst (m st) \<noteq> OutOfFuel \<and> queryDNSCount st \<le> queryDNSCount (snd (m st))"
  by (simp add: total_def)

lemma total_plain: "plain m \<Longrightarrow> total opts n m"
  by (simp add: total_def plain_def)

lemma enough_mono: "enough opts n st \<Longrightarrow> queryDNSCount st \<le> queryDNSCount st1 \<Longrightarrow> enough opts n st1"
  by (simp add: enough_def)

lemma enough_spent:
  assumes "enough opts (Suc n) st" and "queryDNSCount st < maxDNS opts"
    and "queryDNSCount st < queryDNSCount st1"
  shows "enough opts n st1"
  using assms by (simp add: enough_def)

lemma total_if: "(b \<Longrightarrow> total opts n m1) \<Longrightarrow> (\<not> b \<Longrightarrow> total opts n m2) \<Longrightarrow> total opts n (if b then m1 else m2)"
  by simp

lemma total_await:
  assumes "total opts n m" and "\<And>x. total opts n (k x)"
  shows "total opts n (await m k)"
proof (rule totalI)
  fix st assume e: "enough opts n st"
  show "fst (await m k st) \<noteq> OutOfFuel
      \<and> queryDNSCount st \<le> queryDNSCount (snd (await m k st))"
  proof (cases rule: await_cases [of m st k])
    case (Return x st1)
    from totalD [OF assms(1) e] Return(1) have "queryDNSCount st \<le> queryDNSCount st1" by simp
    with totalD [OF assms(2) enough_mono [OF e this], of x] show ?thesis
      unfolding Return by simp
  next
    case (Throw e1 st1)
    from totalD [OF assms(1) e] show ?thesis unfolding Throw by simp
  next
    case (OutOfFuel st1)
    from totalD [OF assms(1) e] show ?thesis unfolding OutOfFuel by simp
  qed
qed

lemmas total_rules =
  total_await total_if total_plain [OF plain_return] total_plain [OF plain_throw]
  total_plain [OF plain_throw_result] total_plain [OF plain_resolveDNS]
  total_plain [OF plain_resolveMX] total_plain [OF plain_prepare]
  total_plain [OF plain_match] total_plain [OF plain_matched_result]
  total_plain [OF plain_fetch_policy]

lemma total_run_resolve:
  assumes "\<And>h rr. total opts n (resolveSPF E opts n h rr)"
  shows "total opts n (run_resolve E opts n m)"
proof (cases "resolve m")
  case None
  then show ?thesis by (simp add: total_rules)
next
  case (Some r)
  then show ?thesis
    by (cases r) (auto intro!: total_rules assms)
qed

lemma total_resolve_loop:
  assumes "\<And>h rr. total opts n (resolveSPF E opts n h rr)"
  shows "total opts n (resolve_loop E opts n h rr c ps acc)"
proof (induction ps arbitrary: acc)
  case Nil
  show ?case by (simp add: total_rules)
next
  case (Cons p ps)
  show ?case
  proof (cases "is_redirect p")
    case True
    show ?thesis
      unfolding resolve_loop_redirect [OF True]
      by (intro total_rules assms Cons.IH)
  next
    case False
    show ?thesis
      unfolding resolve_loop_mechanism [OF False]
      by (intro total_rules total_run_resolve assms Cons.IH)
  qed
qed

lemma total_resolveSPF: "total opts n (resolveSPF E opts n h rr)"
proof (induction n arbitrary: h rr)
  case 0
  show ?case by (simp add: total_def enough_def)
next
  case (Suc n)
  show ?case
  proof (rule totalI)
    fix st assume e: "enough opts (Suc n) st"
    let ?k = "\<lambda>ps. resolve_loop E opts n h rr (has_catchAll ps) ps []"
    show "fst (resolveSPF E opts (Suc n) h rr st) \<noteq> OutOfFuel
      \<and> queryDNSCount st \<le> queryDNSCount (snd (resolveSPF E opts (Suc n) h rr st))"
    proof (cases rule: await_cases [of "fetch_policy E opts h" st ?k])
      case (Return ps st1)
      from spendsD [OF spends_fetch_policy Return(1)]
      have s: "queryDNSCount st < maxDNS opts" "queryDNSCount st < queryDNSCount st1" by simp_all
      from totalD [OF total_resolve_loop [OF Suc.IH, of h rr "has_catchAll ps" ps "[]"]
          enough_spent [OF e s]] s(2)
      show ?thesis
        unfolding resolveSPF.simps Return(2) by simp
    next
      case (Throw e1 st1)
      from plainD [OF plain_fetch_policy, of E opts h st] show ?thesis
        unfolding resolveSPF.simps Throw by simp
    next
      case (OutOfFuel st1)
      from plainD [OF plain_fetch_policy, of E opts h st] show ?thesis
        unfolding resolveSPF.simps OutOfFuel by simp
    qed
  qed
qed

lemma runs_plain: "plain m \<Longrightarrow> runs m st"
  by (simp add: runs_def plain_def)

lemma runs_total: "total opts n m \<Longrightarrow> enough opts n st \<Longrightarrow> runs m st"
  by (simp add: runs_def total_def)

lemma runs_await:
  assumes "runs m st" and "\<And>x st1. m st = (Return x, st1) \<Longrightarrow> runs (k x) st1"
  shows "runs (await m k) st"
proof (cases rule: await_cases [of m st k])
  case (Return x st1)
  from assms(1) assms(2) [OF Return(1)] show ?thesis
    unfolding runs_def Return by simp
next
  case (Throw e st1)
  from assms(1) show ?thesis unfolding runs_def Throw by simp
next
  case (OutOfFuel st1)
  from assms(1) show ?thesis unfolding runs_def OutOfFuel by simp
qed

lemma runs_mono: "runs m st \<Longrightarrow> m st = (r, st1) \<Longrightarrow> queryDNSCount st \<le> queryDNSCount st1"
  by (simp add: runs_def)

text \<open>Lists without prefetch.\<close>

lemma has_include_step_attach:
  "is_include m \<Longrightarrow> has_include_step (attach_include rr m)"
  by (simp add: attach_include_def has_include_step_def is_include_def)

lemma is_include_attach: "is_include (attach_include rr m) = is_include m"
  by (simp add: is_include_def)

lemma returns_prepare_step:
  "returns (prepare E h rr pm) (\<lambda>m. mtype m = ptype pm \<and> (is_include m \<longrightarrow> has_include_step m))"
proof (rule returnsI)
  fix st m st'
  assume p: "prepare E h rr pm st = (Return m, st')"
  then obtain m1 st1 where "return (attach_include rr m1) st1 = (Return m, st')"
    unfolding prepare_def by (rule await_ReturnE)
  then have "m = attach_include rr m1" by (simp add: return_def)
  then have "is_include m \<longrightarrow> has_include_step m"
    using has_include_step_attach [of m1 rr] by (simp add: is_include_attach)
  with prepare_mtype(1) [OF p] show "mtype m = ptype pm \<and> (is_include m \<longrightarrow> has_include_step m)"
    by simp
qed

lemma resolve_loop_lazy:
  assumes "\<not> prefetch opts"
    and "\<And>h. returns (resolveSPF E opts n h rr) lazy"
    and "lazy acc"
  shows "returns (resolve_loop E opts n h rr c ps acc) lazy"
  using assms(3)
proof (induction ps arbitrary: acc)
  case Nil
  then show ?case by (simp add: returns_return)
next
  case (Cons p ps)
  show ?case
  proof (cases "is_redirect p")
    case True
    have "returns (await (resolveSPF E opts n (pvalue p) rr)
             (\<lambda>rs. resolve_loop E opts n h rr c ps (acc @ rs))) lazy"
    proof (rule returns_await [OF assms(2)])
      fix rs assume "lazy rs"
      with Cons.prems have "lazy (acc @ rs)" by (simp add: lazy_def)
      then show "returns (resolve_loop E opts n h rr c ps (acc @ rs)) lazy"
        by (rule Cons.IH)
    qed
    with Cons.IH [OF Cons.prems] show ?thesis
      unfolding resolve_loop_redirect [OF True] by (cases c) simp_all
  next
    case False
    have step: "returns (if is_all m3 then return (acc @ [m3])
                   else resolve_loop E opts n h rr c ps (acc @ [m3])) lazy"
      if "is_include m3 \<longrightarrow> has_include_step m3" for m3
    proof -
      from that Cons.prems have "lazy (acc @ [m3])" by (simp add: lazy_def)
      then show ?thesis by (intro returns_if returns_return Cons.IH)
    qed
    have pre: "returns (if prefetch opts \<and> resolve m2 \<noteq> None
                   then run_resolve E opts n m2 else return m2)
                 (\<lambda>m3. is_include m3 \<longrightarrow> has_include_step m3)"
      if "is_include m2 \<longrightarrow> has_include_step m2" for m2
      using assms(1) that by (simp add: returns_return)
    show ?thesis
      unfolding resolve_loop_mechanism [OF False]
      apply (rule returns_await [OF returns_prepare_step])
      apply (rule returns_await [OF pre])
       apply simp
      apply (rule step)
      apply simp
      done
  qed
qed

lemma resolveSPF_lazy:
  assumes "\<not> prefetch opts"
  shows "returns (resolveSPF E opts n h rr) lazy"
proof (induction n arbitrary: h)
  case 0
  show ?case by (simp add: returns_def)
next
  case (Suc n)
  have "lazy []" by (simp add: lazy_def)
  then have "returns (resolve_loop E opts n h rr c ps []) lazy" for c ps
    by (rule resolve_loop_lazy [OF assms Suc.IH])
  then show ?case
    by (simp add: returns_def await_def split: prod.splits outcome.splits)
qed

lemma run_resolve_include:
  assumes "has_include_step m" and "run_resolve E opts n m st = (Return m1, st1)"
  obtains h rr incs where "resolveSPF E opts n h rr st = (Return incs, st1)"
    and "m1 = set_includes incs m"
proof -
  from assms(1) obtain h rr where r: "resolve m = Some (ResolveInclude h rr)"
    by (auto simp: has_include_step_def split: option.splits resolver.splits)
  with assms(2) have "await (resolveSPF E opts n h rr) (\<lambda>incs. return (set_includes incs m)) st
      = (Return m1, st1)"
    by simp
  then obtain incs st2 where "resolveSPF E opts n h rr st = (Return incs, st2)"
    and "return (set_includes incs m) st2 = (Return m1, st1)"
    by (rule await_ReturnE)
  then show ?thesis
    by (intro that [of h rr incs]) (auto simp: return_def)
qed

lemma includes_set_includes [simp]: "includes' (set_includes incs m) = Some incs"
  by (cases m) simp

lemma includes_set_evaluated [simp]: "includes' (set_evaluated ev m) = includes' m"
  by (cases m) simp

lemma total_lazy_resolve: "total opts n (lazy_resolve E opts n m)"
  unfolding lazy_resolve_def
  by (intro total_rules total_run_resolve total_resolveSPF)

lemma lazy_resolve_mtype:
  assumes "lazy_resolve E opts n m st = (Return m1, st1)"
  shows "mtype m1 = mtype m"
  using assms run_resolve_mtype [of E opts n m st m1 st1]
  by (auto simp: lazy_resolve_def return_def split: if_splits)

lemma enough_runs:
  assumes "enough opts n st" and "runs m st" and "m st = (r, st1)"
  shows "enough opts n st1"
  using assms(1) runs_mono [OF assms(2,3)] by (rule enough_mono)

lemma evaluate_runs_lazy:
  assumes np: "\<not> prefetch opts"
  shows "lazy ms \<Longrightarrow> enough opts n st \<Longrightarrow> runs (evaluate E opts (Suc n) ms addr) st"
proof (induction n arbitrary: ms st)
  case 0
  then show ?case by (simp add: enough_def)
next
  case (Suc k)
  from Suc.prems show ?case
  proof (induction ms arbitrary: st)
    case Nil
    show ?case by (simp add: runs_plain plain_return)
  next
    case (Cons m ms)
    from Cons.prems(1) have lm: "is_include m \<longrightarrow> has_include_step m" and lms: "lazy ms"
      by (simp_all add: lazy_def)
    note e = Cons.prems(2)
    let ?B = "\<lambda>m1. if is_include m1 then
              (case includes' m1 of
                 None \<Rightarrow> throw (Untyped ''TypeError: mechanisms is undefined'')
               | Some incs \<Rightarrow>
                   await (evaluate E opts (Suc k) incs addr) (\<lambda>r. return (set_evaluated r m1)))
            else return m1"
    let ?C = "\<lambda>m2. await (match E opts m2 (Some addr)) (\<lambda>b.
                if b then matched_result m2 else evaluate E opts (Suc (Suc k)) ms addr)"
    have r0: "runs (lazy_resolve E opts (Suc k) m) st"
      using total_lazy_resolve e by (rule runs_total)
    have "runs (await (lazy_resolve E opts (Suc k) m) (\<lambda>m1. await (?B m1) ?C)) st"
    proof (rule runs_await [OF r0])
      fix m1 st1
      assume r: "lazy_resolve E opts (Suc k) m st = (Return m1, st1)"
      have e1: "enough opts (Suc k) st1" using e r0 r by (rule enough_runs)
      have t: "is_include m1 = is_include m"
        using lazy_resolve_mtype [OF r] by (simp add: is_include_def)
      have B: "runs (?B m1) st1"
      proof (cases "is_include m1")
        case False
        then show ?thesis by (simp add: runs_plain plain_return)
      next
        case True
        with t lm have s: "has_include_step m" by simp
        then have "resolve m \<noteq> None"
          by (auto simp: has_include_step_def split: option.splits)
        with np r have rr: "run_resolve E opts (Suc k) m st = (Return m1, st1)"
          by (simp add: lazy_resolve_def)
        from s rr obtain h rr incs
          where rs: "resolveSPF E opts (Suc k) h rr st = (Return incs, st1)"
            and m1: "m1 = set_includes incs m"
          by (rule run_resolve_include)
        from returnsD [OF resolveSPF_lazy [OF np] rs] have li: "lazy incs" .
        from spendsD [OF spends_resolveSPF rs]
        have "queryDNSCount st < maxDNS opts" "queryDNSCount st < queryDNSCount st1"
          by simp_all
        with e have ek: "enough opts k st1" by (rule enough_spent)
        have "runs (await (evaluate E opts (Suc k) incs addr)
                 (\<lambda>r. return (set_evaluated r m1))) st1"
          by (rule runs_await [OF Suc.IH [OF li ek]]) (simp add: runs_plain plain_return)
        with True show ?thesis by (simp add: m1)
      qed
      show "runs (await (?B m1) ?C) st1"
      proof (rule runs_await [OF B])
        fix m2 st2
        assume b: "?B m1 st1 = (Return m2, st2)"
        have e2: "enough opts (Suc k) st2" using e1 B b by (rule enough_runs)
        have rm: "runs (match E opts m2 (Some addr)) st2"
          by (rule runs_plain [OF plain_match])
        show "runs (?C m2) st2"
        proof (rule runs_await [OF rm])
          fix b st3
          assume "match E opts m2 (Some addr) st2 = (Return b, st3)"
          with e2 rm have "enough opts (Suc k) st3" by (rule enough_runs)
          from Cons.IH [OF lms this]
          show "runs (if b then matched_result m2
                      else evaluate E opts (Suc (Suc k)) ms addr) st3"
            by (simp add: runs_plain plain_matched_result)
        qed
      qed
    qed
    then show ?case by (simp only: evaluate.simps)
  qed
qed

text \<open>Lists with prefetch.\<close>

lemma resolved_within_Suc:
  "resolved_within (Suc n) ms = list_all (resolved_include n) ms"
  by (simp add: resolved_include_def [abs_def])

declare resolved_within.simps(2) [simp del]

lemma resolved_within_mono: "resolved_within n ms \<Longrightarrow> resolved_within (Suc n) ms"
proof (induction n arbitrary: ms)
  case 0
  then show ?case by simp
next
  case (Suc n)
  have "resolved_include (Suc n) m" if "resolved_include n m" for m
    using that Suc.IH unfolding resolved_include_def
    by (cases "includes' m") simp_all
  with Suc.prems show ?case
    unfolding resolved_within_Suc by (auto simp: list_all_iff)
qed

lemma evaluate_plain_prefetch:
  assumes pf: "prefetch opts"
  shows "resolved_within n ms \<Longrightarrow> plain (evaluate E opts n ms addr)"
proof (induction n arbitrary: ms)
  case 0
  then show ?case by simp
next
  case (Suc k)
  from Suc.prems show ?case
  proof (induction ms)
    case Nil
    show ?case by (simp add: plain_return)
  next
    case (Cons m ms)
    from Cons.prems have hd: "resolved_include k m" and tl: "resolved_within (Suc k) ms"
      by (simp_all add: resolved_within_Suc)
    let ?B = "if is_include m then
              (case includes' m of
                 None \<Rightarrow> throw (Untyped ''TypeError: mechanisms is undefined'')
               | Some incs \<Rightarrow>
                   await (evaluate E opts k incs addr) (\<lambda>r. return (set_evaluated r m)))
            else return m"
    let ?C = "\<lambda>m2. await (match E opts m2 (Some addr)) (\<lambda>b.
                if b then matched_result m2 else evaluate E opts (Suc k) ms addr)"
    have B: "plain ?B"
    proof (cases "is_include m")
      case False
      then show ?thesis by (simp add: plain_return)
    next
      case True
      with hd obtain incs where i: "includes' m = Some incs" and w: "resolved_within k incs"
        by (auto simp: resolved_include_def split: option.splits)
      have "plain (await (evaluate E opts k incs addr) (\<lambda>r. return (set_evaluated r m)))"
        by (intro plain_rules Suc.IH [OF w])
      with True i show ?thesis by simp
    qed
    have C: "plain (?C m2)" for m2
      by (intro plain_rules plain_match plain_matched_result Cons.IH [OF tl])
    have "plain (await ?B ?C)"
      by (rule plain_await [OF B]) (rule C)
    then show ?case
      using pf by (simp only: evaluate.simps lazy_resolve_def simp_thms if_False await_return)
  qed
qed

lemma resolve_loop_resolved:
  assumes "prefetch opts"
    and "\<And>h rr. returns (resolveSPF E opts n h rr) (resolved_within n)"
    and "resolved_within (Suc n) acc"
  shows "returns (resolve_loop E opts n h rr c ps acc) (resolved_within (Suc n))"
  using assms(3)
proof (induction ps arbitrary: acc)
  case Nil
  then show ?case by (simp only: resolve_loop.simps returns_return)
next
  case (Cons p ps)
  show ?case
  proof (cases "is_redirect p")
    case True
    have "returns (await (resolveSPF E opts n (pvalue p) rr)
             (\<lambda>rs. resolve_loop E opts n h rr c ps (acc @ rs))) (resolved_within (Suc n))"
    proof (rule returns_await [OF assms(2)])
      fix rs assume "resolved_within n rs"
      then have "resolved_within (Suc n) rs" by (rule resolved_within_mono)
      with Cons.prems have "resolved_within (Suc n) (acc @ rs)"
        by (simp only: resolved_within_Suc list_all_append simp_thms)
      then show "returns (resolve_loop E opts n h rr c ps (acc @ rs)) (resolved_within (Suc n))"
        by (rule Cons.IH)
    qed
    with Cons.IH [OF Cons.prems] show ?thesis
      unfolding resolve_loop_redirect [OF True] by (cases c) simp_all
  next
    case False
    have step: "returns (if is_all m3 then return (acc @ [m3])
                   else resolve_loop E opts n h rr c ps (acc @ [m3])) (resolved_within (Suc n))"
      if "resolved_include n m3" for m3
    proof -
      from that Cons.prems have "resolved_within (Suc n) (acc @ [m3])"
        by (simp add: resolved_within_Suc)
      then show ?thesis by (intro returns_if returns_return Cons.IH)
    qed
    have pre: "returns (if prefetch opts \<and> resolve m2 \<noteq> None
                   then run_resolve E opts n m2 else return m2) (resolved_include n)"
      if m2: "is_include m2 \<longrightarrow> has_include_step m2" for m2
    proof (rule returnsI)
      fix st m3 st'
      assume r: "(if prefetch opts \<and> resolve m2 \<noteq> None
                   then run_resolve E opts n m2 else return m2) st = (Return m3, st')"
      show "resolved_include n m3"
      proof (cases "is_include m2")
        case True
        with m2 have s: "has_include_step m2" by simp
        then have "resolve m2 \<noteq> None"
          by (auto simp: has_include_step_def split: option.splits)
        with r assms(1) have "run_resolve E opts n m2 st = (Return m3, st')" by simp
        with s obtain h rr' incs
          where rs: "resolveSPF E opts n h rr' st = (Return incs, st')"
            and m3: "m3 = set_includes incs m2"
          by (rule run_resolve_include)
        from returnsD [OF assms(2) rs] have "resolved_within n incs" .
        with True show ?thesis
          by (simp add: resolved_include_def m3 is_include_def)
      next
        case False
        have "mtype m3 = mtype m2"
          using r run_resolve_mtype [of E opts n m2 st m3 st']
          by (auto simp: return_def split: if_splits)
        with False show ?thesis by (simp add: resolved_include_def is_include_def)
      qed
    qed
    show ?thesis
      unfolding resolve_loop_mechanism [OF False]
      apply (rule returns_await [OF returns_prepare_step])
      apply (rule returns_await [OF pre])
       apply simp
      apply (rule step)
      apply simp
      done
  qed
qed


lemma resolveSPF_resolved:
  assumes "prefetch opts"
  shows "returns (resolveSPF E opts n h rr) (resolved_within n)"
proof (induction n arbitrary: h rr)
  case 0
  show ?case by (simp add: returns_def)
next
  case (Suc n)
  have "resolved_within (Suc n) []" by (simp add: resolved_within_Suc)
  then have "returns (resolve_loop E opts n h rr c ps []) (resolved_within (Suc n))" for c ps
    by (rule resolve_loop_resolved [OF assms Suc.IH])
  then show ?case
    unfolding resolveSPF.simps
    by (intro returns_await [where \<psi> = "\<lambda>x. True"]) (simp_all add: returns_def)
qed

lemma runs_catch:
  assumes "runs m st" and "\<And>e. plain (h e)"
  shows "runs (catch m h) st"
proof (cases rule: catch_cases [of m st h])
  case (Return x st1)
  from assms(1) show ?thesis unfolding runs_def Return by simp
next
  case (Throw e st1)
  from assms(1) plainD [OF assms(2), of e st1] show ?thesis
    unfolding runs_def Throw by simp
next
  case (OutOfFuel st1)
  from assms(1) show ?thesis unfolding runs_def OutOfFuel by simp
qed

lemma plain_getMechanisms_handler:
  "plain (case e of Typed r \<Rightarrow> throw e | Untyped msg \<Rightarrow> throw_result TempError msg)"
  by (cases e) (auto intro!: plain_rules)

lemma runs_getMechanisms:
  assumes "enough opts n st"
  shows "runs (getMechanisms E opts n domain rr) st"
  unfolding getMechanisms_def
proof (rule runs_await)
  show "runs (catch (resolveSPF E opts n domain rr)
          (\<lambda>err. case err of Typed r \<Rightarrow> throw err
                 | Untyped msg \<Rightarrow> throw_result TempError msg)) st"
    by (rule runs_catch [OF runs_total [OF total_resolveSPF assms]])
       (rule plain_getMechanisms_handler)
next
  fix ms st1
  show "runs (if length ms = 0 then throw_result TempError ''No mechanisms found''
              else return ms) st1"
    by (intro runs_plain plain_rules)
qed

lemma getMechanisms_Return:
  assumes "getMechanisms E opts n domain rr st = (Return ms, st1)"
  shows "resolveSPF E opts n domain rr st = (Return ms, st1)"
proof -
  let ?h = "\<lambda>err. case err of Typed r \<Rightarrow> throw err
                 | Untyped msg \<Rightarrow> throw_result TempError msg"
  from assms obtain x st2
    where c: "catch (resolveSPF E opts n domain rr) ?h st = (Return x, st2)"
      and r: "(if length x = 0 then throw_result TempError ''No mechanisms found''
              else return x) st2 = (Return ms, st1)"
    unfolding getMechanisms_def by (rule await_ReturnE)
  from r have x: "x = ms" "st2 = st1"
    by (auto simp: return_def throw_result_def throw_def split: if_splits)
  show ?thesis
  proof (cases rule: catch_cases [of "resolveSPF E opts n domain rr" st ?h])
    case (Return y st3)
    with c x show ?thesis by simp
  next
    case (Throw e st3)
    with c have "?h e st3 = (Return x, st2)" by simp
    then show ?thesis
      by (cases e) (simp_all add: throw_def throw_result_def)
  next
    case (OutOfFuel st3)
    with c show ?thesis by simp
  qed
qed

lemma runs_check_inner:
  assumes "enough opts n st"
  shows "runs (await (getMechanisms E opts n domain rr) (\<lambda>ms. evaluate E opts n ms addr)) st"
proof (rule runs_await [OF runs_getMechanisms [OF assms]])
  fix ms st1
  assume "getMechanisms E opts n domain rr st = (Return ms, st1)"
  then have rs: "resolveSPF E opts n domain rr st = (Return ms, st1)"
    by (rule getMechanisms_Return)
  show "runs (evaluate E opts n ms addr) st1"
  proof (cases "prefetch opts")
    case True
    from returnsD [OF resolveSPF_resolved [OF True] rs]
    have "resolved_within n ms" .
    then have "plain (evaluate E opts n ms addr)"
      by (rule evaluate_plain_prefetch [OF True])
    then show ?thesis by (rule runs_plain)
  next
    case False
    from returnsD [OF resolveSPF_lazy [OF False] rs] have l: "lazy ms" .
    from assms obtain k where n: "n = Suc k" by (cases n) (simp_all add: enough_def)
    from spendsD [OF spends_resolveSPF rs]
    have "queryDNSCount st < maxDNS opts" "queryDNSCount st < queryDNSCount st1" by simp_all
    with assms [unfolded n] have "enough opts k st1" by (rule enough_spent)
    with l show ?thesis unfolding n by (rule evaluate_runs_lazy [OF False])
  qed
qed

lemma check_total:
  assumes "enough opts n st"
  shows "\<exists>r st'. check E opts n domain ip st = (Return r, st')"
proof (cases "ip_isValid E ip \<and> tld_isValid E domain")
  case False
  then show ?thesis by (auto simp: check_def return_def)
next
  case True
  define inner where "inner = await (getMechanisms E opts n domain
      (if fst (ip_parse E ip) = IPv4 then A else AAAA)) (\<lambda>ms. evaluate E opts n ms (ip_parse E ip))"
  have c: "check E opts n domain ip st = catch inner to_result st"
    using True by (simp add: check_def inner_def Let_def)
  have r: "runs inner st"
    unfolding inner_def by (rule runs_check_inner [OF assms])
  show ?thesis
  proof (cases rule: catch_cases [of inner st to_result])
    case (Return x st1)
    then show ?thesis unfolding c by simp
  next
    case (Throw e st1)
    then show ?thesis unfolding c
      by (cases e) (simp_all add: to_result_def return_def)
  next
    case (OutOfFuel st1)
    with r show ?thesis by (simp add: runs_def)
  qed
qed

lemma enough_new: "maxDNS opts < n \<Longrightarrow> enough opts n SPF_new"
  by (simp add: enough_def SPF_new_def)

lemma resolveDNS_refuses:
  assumes "l \<noteq> Some False" and "maxDNS opts \<le> queryDNSCount st"
  shows "resolveDNS E opts h t l st =
     (Throw (Typed limit_error), st\<lparr>trace := trace st @ [Refused h t (queryDNSCount st)]\<rparr>)"
  using assms by (cases l) (auto simp: resolveDNS_def limit_error_def)

lemma gone_resolve:
  "run_resolve (fixture_env gone_zone fixture_parse) default_options 18
     (set_resolve (ResolveInclude ''gone.example.com'' A)
        (mechanism_of (term_of ''include'' ''gone.example.com'' ''Pass'')))
     \<lparr> queryDNSCount = 1, warnings = [], trace = [Issued ''example.com'' TXT True 1] \<rparr>
   = (Throw (Typed (new_SPFResult SPF_None ''Domain does not exists'')),
      \<lparr> queryDNSCount = 2, warnings = [],
        trace = [Issued ''example.com'' TXT True 1,
                 Issued ''gone.example.com'' TXT True 2] \<rparr>)"
  by code_simp

lemma gone_mechanisms:
  "getMechanisms (fixture_env gone_zone fixture_parse) default_options 20 ''example.com'' A SPF_new
   = (Return [mechanism_of version_term,
              set_resolve (ResolveInclude ''gone.example.com'' A)
                (mechanism_of (term_of ''include'' ''gone.example.com'' ''Pass''))],
      \<lparr> queryDNSCount = 1, warnings = [], trace = [Issued ''example.com'' TXT True 1] \<rparr>)"
  by code_simp

lemma gone_check:
  "checkInclude (fixture_env gone_zone fixture_parse) default_options 20
     ''example.com'' ''other.example.com'' SPF_new
   = (Return (new_SPFResult Fail []),
      \<lparr> queryDNSCount = 2, warnings = [],
        trace = [Issued ''example.com'' TXT True 1,
                 Issued ''gone.example.com'' TXT True 2] \<rparr>)"
  by code_simp

subsection \<open>Failures at the boundary\<close>

lemma getMechanisms_cases:
  "resolveSPF E opts n domain rr st = (Throw (Typed res), st') \<Longrightarrow>
     getMechanisms E opts n domain rr st = (Throw (Typed res), st')"
  "resolveSPF E opts n domain rr st = (Throw (Untyped msg), st') \<Longrightarrow>
     getMechanisms E opts n domain rr st = (Throw (Typed (new_SPFResult TempError msg)), st')"
  "resolveSPF E opts n domain rr st = (Return ms, st') \<Longrightarrow> ms \<noteq> [] \<Longrightarrow>
     getMechanisms E opts n domain rr st = (Return ms, st')"
  by (simp_all add: getMechanisms_def await_def catch_def throw_def throw_result_def return_def)

lemma boundary_cases:
  "m st = (Throw (Typed res), st') \<Longrightarrow> catch m to_result st = (Return res, st')"
  "m st = (Throw (Untyped msg), st') \<Longrightarrow>
     catch m to_result st = (Return (new_SPFResult PermError msg), st')"
  by (simp_all add: catch_def to_result_def return_def)

lemma check_failures:
  assumes "ip_isValid E ip" and "tld_isValid E domain"
    and rr: "rr = (if fst (ip_parse E ip) = IPv4 then A else AAAA)"
  shows "resolveSPF E opts n domain rr st = (Throw (Typed res), st') \<Longrightarrow>
           check E opts n domain ip st = (Return res, st')"
    and "resolveSPF E opts n domain rr st = (Throw (Untyped msg), st') \<Longrightarrow>
           check E opts n domain ip st = (Return (new_SPFResult TempError msg), st')"
    and "resolveSPF E opts n domain rr st = (Return ms, st1) \<Longrightarrow> ms \<noteq> [] \<Longrightarrow>
         evaluate E opts n ms (ip_parse E ip) st1 = (Throw (Typed res), st') \<Longrightarrow>
           check E opts n domain ip st = (Return res, st')"
    and "resolveSPF E opts n domain rr st = (Return ms, st1) \<Longrightarrow> ms \<noteq> [] \<Longrightarrow>
         evaluate E opts n ms (ip_parse E ip) st1 = (Throw (Untyped msg), st') \<Longrightarrow>
           check E opts n domain ip st = (Return (new_SPFResult PermError msg), st')"
proof -
  let ?inner = "await (getMechanisms E opts n domain rr)
                  (\<lambda>ms. evaluate E opts n ms (ip_parse E ip))"
  have c: "check E opts n domain ip st = catch ?inner to_result st"
    using assms(1,2) by (simp add: check_def Let_def rr)
  show "check E opts n domain ip st = (Return res, st')"
    if "resolveSPF E opts n domain rr st = (Throw (Typed res), st')"
    unfolding c
    by (rule boundary_cases(1)) (simp add: await_def getMechanisms_cases(1) [OF that])
  show "check E opts n domain ip st = (Return (new_SPFResult TempError msg), st')"
    if "resolveSPF E opts n domain rr st = (Throw (Untyped msg), st')"
    unfolding c
    by (rule boundary_cases(1)) (simp add: await_def getMechanisms_cases(2) [OF that])
  show "check E opts n domain ip st = (Return res, st')"
    if "resolveSPF E opts n domain rr st = (Return ms, st1)" "ms \<noteq> []"
      "evaluate E opts n ms (ip_parse E ip) st1 = (Throw (Typed res), st')"
    unfolding c
    by (rule boundary_cases(1))
       (simp add: await_def getMechanisms_cases(3) [OF that(1,2)] that(3))
  show "check E opts n domain ip st = (Return (new_SPFResult PermError msg), st')"
    if "resolveSPF E opts n domain rr st = (Return ms, st1)" "ms \<noteq> []"
      "evaluate E opts n ms (ip_parse E ip) st1 = (Throw (Untyped msg), st')"
    unfolding c
    by (rule boundary_cases(2))
       (simp add: await_def getMechanisms_cases(3) [OF that(1,2)] that(3))
qed

lemma checkInclude_failures:
  assumes "tld_isValid E domain"
  shows "resolveSPF E opts n domain A st = (Throw (Typed res), st') \<Longrightarrow>
           checkInclude E opts n domain required st = (Return res, st')"
    and "resolveSPF E opts n domain A st = (Throw (Untyped msg), st') \<Longrightarrow>
           checkInclude E opts n domain required st = (Return (new_SPFResult TempError msg), st')"
    and "resolveSPF E opts n domain A st = (Return ms, st1) \<Longrightarrow> ms \<noteq> [] \<Longrightarrow>
         evaluateInclude E opts n ms required [] st1 = (Throw (Typed res), st') \<Longrightarrow>
           checkInclude E opts n domain required st = (Return res, st')"
    and "resolveSPF E opts n domain A st = (Return ms, st1) \<Longrightarrow> ms \<noteq> [] \<Longrightarrow>
         evaluateInclude E opts n ms required [] st1 = (Throw (Untyped msg), st') \<Longrightarrow>
           checkInclude E opts n domain required st = (Return (new_SPFResult PermError msg), st')"
proof -
  let ?inner = "await (getMechanisms E opts n domain A)
                  (\<lambda>ms. evaluateInclude E opts n ms required [])"
  have c: "checkInclude E opts n domain required st = catch ?inner to_result st"
    using assms by (simp add: checkInclude_def)
  show "checkInclude E opts n domain required st = (Return res, st')"
    if "resolveSPF E opts n domain A st = (Throw (Typed res), st')"
    unfolding c
    by (rule boundary_cases(1)) (simp add: await_def getMechanisms_cases(1) [OF that])
  show "checkInclude E opts n domain required st = (Return (new_SPFResult TempError msg), st')"
    if "resolveSPF E opts n domain A st = (Throw (Untyped msg), st')"
    unfolding c
    by (rule boundary_cases(1)) (simp add: await_def getMechanisms_cases(2) [OF that])
  show "checkInclude E opts n domain required st = (Return res, st')"
    if "resolveSPF E opts n domain A st = (Return ms, st1)" "ms \<noteq> []"
      "evaluateInclude E opts n ms required [] st1 = (Throw (Typed res), st')"
    unfolding c
    by (rule boundary_cases(1))
       (simp add: await_def getMechanisms_cases(3) [OF that(1,2)] that(3))
  show "checkInclude E opts n domain required st = (Return (new_SPFResult PermError msg), st')"
    if "resolveSPF E opts n domain A st = (Return ms, st1)" "ms \<noteq> []"
      "evaluateInclude E opts n ms required [] st1 = (Throw (Untyped msg), st')"
    unfolding c
    by (rule boundary_cases(2))
       (simp add: await_def getMechanisms_cases(3) [OF that(1,2)] that(3))
qed

lemma try_resolve_typed:
  assumes "\<not> prefetch opts" and "resolve m \<noteq> None"
    and "run_resolve E opts k m st = (Throw (Typed res), st')"
  shows "try_resolve E opts k m st =
     (if result res = SPF_None then (Return None, st') else (Throw (Typed res), st'))"
  using assms
  by (simp add: try_resolve_def catch_def await_def return_def throw_def)

subsection \<open>Enough fuel for the search of an included domain\<close>

lemma includes_set [simp]:
  "includes' (set_value v m) = includes' m"
  "includes' (set_resolve r m) = includes' m"
  "includes' (set_address a m) = includes' m"
  "includes' (set_records rs m) = includes' m"
  "includes' (set_exchanges es m) = includes' m"
  by (cases m; simp)+

lemma includes_mechanism_of [simp]: "includes' (mechanism_of pm) = None"
  by (simp add: mechanism_of_def)

lemma returns_prepare_fresh:
  "returns (prepare E h rr pm)
     (\<lambda>m. includes' m = None \<and> (is_include m \<longrightarrow> has_include_step m))"
proof (rule returnsI)
  fix st m st'
  assume p: "prepare E h rr pm st = (Return m, st')"
  from returnsD [OF returns_prepare_step p] have 1: "is_include m \<longrightarrow> has_include_step m"
    by simp
  from p have "includes' m = None"
    by (auto simp: prepare_def await_def return_def resolve_ip_def Let_def throw_result_def
          throw_def attach_include_def attach_a_mx_def
        split: prod.splits outcome.splits if_splits option.splits)
  with 1 show "includes' m = None \<and> (is_include m \<longrightarrow> has_include_step m)" by simp
qed

lemma resolve_loop_fresh:
  assumes "\<not> prefetch opts"
    and "\<And>h. returns (resolveSPF E opts n h rr) fresh"
    and "fresh acc"
  shows "returns (resolve_loop E opts n h rr c ps acc) fresh"
  using assms(3)
proof (induction ps arbitrary: acc)
  case Nil
  then show ?case by (simp add: returns_return)
next
  case (Cons p ps)
  show ?case
  proof (cases "is_redirect p")
    case True
    have "returns (await (resolveSPF E opts n (pvalue p) rr)
             (\<lambda>rs. resolve_loop E opts n h rr c ps (acc @ rs))) fresh"
    proof (rule returns_await [OF assms(2)])
      fix rs assume "fresh rs"
      with Cons.prems have "fresh (acc @ rs)" by (simp add: fresh_def)
      then show "returns (resolve_loop E opts n h rr c ps (acc @ rs)) fresh"
        by (rule Cons.IH)
    qed
    with Cons.IH [OF Cons.prems] show ?thesis
      unfolding resolve_loop_redirect [OF True] by (cases c) simp_all
  next
    case False
    have step: "returns (if is_all m3 then return (acc @ [m3])
                   else resolve_loop E opts n h rr c ps (acc @ [m3])) fresh"
      if "includes' m3 = None \<and> (is_include m3 \<longrightarrow> has_include_step m3)" for m3
    proof -
      from that Cons.prems have "fresh (acc @ [m3])" by (simp add: fresh_def)
      then show ?thesis by (intro returns_if returns_return Cons.IH)
    qed
    have pre: "returns (if prefetch opts \<and> resolve m2 \<noteq> None
                   then run_resolve E opts n m2 else return m2)
                 (\<lambda>m3. includes' m3 = None \<and> (is_include m3 \<longrightarrow> has_include_step m3))"
      if "includes' m2 = None \<and> (is_include m2 \<longrightarrow> has_include_step m2)" for m2
      using assms(1) that by (simp add: returns_return)
    show ?thesis
      unfolding resolve_loop_mechanism [OF False]
      apply (rule returns_await [OF returns_prepare_fresh])
      apply (rule returns_await [OF pre])
       apply simp
      apply (rule step)
      apply simp
      done
  qed
qed

lemma resolveSPF_fresh:
  assumes "\<not> prefetch opts"
  shows "returns (resolveSPF E opts n h rr) fresh"
proof (induction n arbitrary: h)
  case 0
  show ?case by (simp add: returns_def)
next
  case (Suc n)
  have "fresh []" by (simp add: fresh_def)
  then have "returns (resolve_loop E opts n h rr c ps []) fresh" for c ps
    by (rule resolve_loop_fresh [OF assms Suc.IH])
  then show ?case
    by (simp add: returns_def await_def split: prod.splits outcome.splits)
qed

text \<open>What a budgeted lookup has spent when the action does not end with the refusal.\<close>

lemma chargesI:
  "(\<And>st r st'. m st = (r, st') \<Longrightarrow>
        r = Throw (Typed limit_error) \<or> r = OutOfFuel
        \<or> (queryDNSCount st < maxDNS opts \<and> queryDNSCount st < queryDNSCount st'))
   \<Longrightarrow> charges opts m"
  by (simp add: charges_def)

lemma chargesD:
  "charges opts m \<Longrightarrow> m st = (r, st') \<Longrightarrow>
        r = Throw (Typed limit_error) \<or> r = OutOfFuel
        \<or> (queryDNSCount st < maxDNS opts \<and> queryDNSCount st < queryDNSCount st')"
  by (simp add: charges_def)

lemma charges_resolveDNS: "charges opts (resolveDNS E opts h t None)"
  by (rule chargesI)
     (auto simp: resolveDNS_def Let_def limit_error_def split: sum.splits if_splits)

lemma charges_await:
  assumes "charges opts m" and "\<And>x st. queryDNSCount st \<le> queryDNSCount (snd (k x st))"
  shows "charges opts (await m k)"
proof (rule chargesI)
  fix st r st'
  assume a: "await m k st = (r, st')"
  show "r = Throw (Typed limit_error) \<or> r = OutOfFuel
        \<or> (queryDNSCount st < maxDNS opts \<and> queryDNSCount st < queryDNSCount st')"
  proof (cases rule: await_cases [of m st k])
    case (Return x st1)
    from chargesD [OF assms(1) Return(1)] assms(2) [of st1 x] a Return(2)
    show ?thesis by auto
  next
    case (Throw e st1)
    from chargesD [OF assms(1) Throw(1)] a Throw(2) show ?thesis by auto
  next
    case (OutOfFuel st1)
    with a show ?thesis by simp
  qed
qed

lemma charges_fetch_policy: "charges opts (fetch_policy E opts h)"
  unfolding fetch_policy_def
  by (rule charges_await [OF charges_resolveDNS])
     (rule plain_resolveSPF_0 [OF plain_fetch_rest])

lemma charges_resolveSPF: "charges opts (resolveSPF E opts n h rr)"
proof (cases n)
  case 0
  then show ?thesis by (simp add: charges_def)
next
  case (Suc k)
  show ?thesis
    unfolding Suc resolveSPF.simps
    by (rule charges_await [OF charges_fetch_policy])
       (rule resolve_loop_mono [OF resolveSPF_mono])
qed

lemma try_resolve_include:
  assumes "\<not> prefetch opts" and "resolve m = Some (ResolveInclude h rr)"
  shows "try_resolve E opts n m st =
     (case resolveSPF E opts n h rr st of
        (Return incs, st1) \<Rightarrow> (Return (Some (set_includes incs m)), st1)
      | (Throw (Typed r), st1) \<Rightarrow>
          if result r = SPF_None then (Return None, st1) else (Throw (Typed r), st1)
      | (Throw (Untyped msg), st1) \<Rightarrow> (Return (Some m), st1)
      | (OutOfFuel, st1) \<Rightarrow> (OutOfFuel, st1))"
  using assms
  by (simp add: try_resolve_def catch_def await_def return_def throw_def
        split: prod.splits outcome.splits exn.splits)

lemma try_resolve_lazy:
  assumes "\<not> prefetch opts" and "has_include_step m" and "includes' m = None"
    and "enough opts n st" and "try_resolve E opts n m st = (r, st1)"
  shows "r \<noteq> OutOfFuel"
    and "r = Return x \<Longrightarrow>
           queryDNSCount st < maxDNS opts \<and> queryDNSCount st < queryDNSCount st1"
    and "r = Return (Some m1) \<Longrightarrow>
           includes' m1 = None \<or> (\<exists>incs. includes' m1 = Some incs \<and> fresh incs)"
proof -
  from assms(2) obtain h rr where res: "resolve m = Some (ResolveInclude h rr)"
    by (auto simp: has_include_step_def split: option.splits resolver.splits)
  note t = try_resolve_include [OF assms(1) res, of E n st]
  obtain r0 s0 where r0: "resolveSPF E opts n h rr st = (r0, s0)"
    by (cases "resolveSPF E opts n h rr st")
  from totalD [OF total_resolveSPF assms(4), of E h rr] r0 have nf: "r0 \<noteq> OutOfFuel" by simp
  note c = chargesD [OF charges_resolveSPF r0]
  have lim: "result limit_error \<noteq> SPF_None" by (simp add: limit_error_def new_SPFResult_def)
  show "r \<noteq> OutOfFuel"
    using assms(5) nf unfolding t r0
    by (auto split: outcome.splits exn.splits if_splits)
  show "queryDNSCount st < maxDNS opts \<and> queryDNSCount st < queryDNSCount st1"
    if "r = Return x"
    using assms(5) that c lim unfolding t r0
    by (auto split: outcome.splits exn.splits if_splits)
  show "includes' m1 = None \<or> (\<exists>incs. includes' m1 = Some incs \<and> fresh incs)"
    if "r = Return (Some m1)"
  proof (cases r0)
    case (Return incs)
    from returnsD [OF resolveSPF_fresh [OF assms(1)] r0 [unfolded Return]]
    have "fresh incs" .
    with assms(5) that show ?thesis unfolding t r0 Return by auto
  next
    case (Throw e)
    with assms(5) that assms(3) show ?thesis unfolding t r0
      by (cases e) (auto split: if_splits)
  next
    case OutOfFuel
    with nf show ?thesis by simp
  qed
qed

lemma plain_match_evaluated: "plain (match_evaluated E opts m)"
  unfolding match_evaluated_def
  by (cases "evaluated m") (auto intro!: plain_rules plain_match)

lemma unchanged_match_evaluated:
  "match_evaluated E opts m st = (r, st') \<Longrightarrow> st' = st \<and> r \<noteq> OutOfFuel"
  by (auto simp: match_evaluated_def match_def return_def throw_def throw_result_def
        split: option.splits list.splits prod.splits if_splits)

lemma unchanged_matched_result:
  "matched_result m st = (r, st') \<Longrightarrow> st' = st \<and> r \<noteq> OutOfFuel"
  by (auto simp: matched_result_def Let_def return_def throw_def split: option.splits if_splits)

lemma search_rest_runs:
  assumes "fst (include_loop E opts n d l2 (Suc i) st) \<noteq> OutOfFuel"
  shows "fst (await (match_evaluated E opts m2) (\<lambda>b.
            if b then matched_result m2
            else include_loop E opts n d l2 (Suc i)) st) \<noteq> OutOfFuel"
proof (cases rule: await_cases [of "match_evaluated E opts m2" st
    "\<lambda>b. if b then matched_result m2 else include_loop E opts n d l2 (Suc i)"])
  case (Return b st1)
  from unchanged_match_evaluated [OF Return(1)] have st1: "st1 = st" by simp
  show ?thesis
  proof (cases b)
    case True
    obtain r st' where m: "matched_result m2 st = (r, st')" by (cases "matched_result m2 st")
    from unchanged_matched_result [OF m] show ?thesis
      unfolding Return(2) st1 using True m by simp
  next
    case False
    with assms show ?thesis unfolding Return(2) st1 by simp
  qed
next
  case (Throw e st1)
  then show ?thesis by simp
next
  case (OutOfFuel st1)
  with unchanged_match_evaluated [OF OutOfFuel(1)] show ?thesis by simp
qed

lemma fresh_includes_append:
  assumes "fresh_includes arr" and "fresh ms"
  shows "fresh_includes (arr @ filter is_include ms)"
  using assms by (auto simp: fresh_includes_def fresh_def list_all_iff)

lemma fresh_includes_drop: "fresh_includes l \<Longrightarrow> fresh_includes (drop k l)"
  by (auto simp: fresh_includes_def list_all_iff dest: in_set_dropD)

lemma lazy_search_runs:
  assumes "\<not> prefetch opts"
  shows "(fresh ms \<longrightarrow> fresh_includes arr \<longrightarrow> counter_ok opts st \<longrightarrow>
            2 * (maxDNS opts - queryDNSCount st) + 3 \<le> n \<longrightarrow>
            fst (evaluateInclude E opts n ms d arr st) \<noteq> OutOfFuel)
       \<and> (fresh_includes l \<longrightarrow> counter_ok opts st \<longrightarrow>
            2 * (maxDNS opts - queryDNSCount st) + 2 \<le> n \<longrightarrow>
            fst (include_loop E opts n d l i st) \<noteq> OutOfFuel)"
proof (induction n arbitrary: ms arr l i st)
  case 0
  show ?case by simp
next
  case (Suc n)
  have A: "fst (evaluateInclude E opts n ms d arr st) \<noteq> OutOfFuel"
    if "fresh ms" "fresh_includes arr" "counter_ok opts st"
      "2 * (maxDNS opts - queryDNSCount st) + 3 \<le> n" for ms arr st
    using Suc.IH [of ms arr st] that by blast
  have B: "fst (include_loop E opts n d l i st) \<noteq> OutOfFuel"
    if "fresh_includes l" "counter_ok opts st"
      "2 * (maxDNS opts - queryDNSCount st) + 2 \<le> n" for l i st
    using Suc.IH [of _ _ st l i] that by blast
  have 1: "fst (evaluateInclude E opts (Suc n) ms d arr st) \<noteq> OutOfFuel"
    if f: "fresh ms" "fresh_includes arr" and ok: "counter_ok opts st"
      and n: "2 * (maxDNS opts - queryDNSCount st) + 3 \<le> Suc n"
  proof -
    from n have "2 * (maxDNS opts - queryDNSCount st) + 2 \<le> n" by simp
    from B [OF fresh_includes_append [OF f(2,1)] ok this, of 0]
    show ?thesis by (simp add: Let_def return_def)
  qed
  have 2: "fst (include_loop E opts (Suc n) d l i st) \<noteq> OutOfFuel"
    if f: "fresh_includes l" and ok: "counter_ok opts st"
      and n: "2 * (maxDNS opts - queryDNSCount st) + 2 \<le> Suc n"
  proof (cases "i < length l")
    case False
    then show ?thesis by (simp add: return_def)
  next
    case True
    let ?k = "\<lambda>r. case r of
          None \<Rightarrow> include_loop E opts n d l (Suc i)
        | Some m1 \<Rightarrow>
            await (search_step E opts n d l i m1) (\<lambda>(m2, l2).
            await (match_evaluated E opts m2) (\<lambda>b.
            if b then matched_result m2
            else include_loop E opts n d l2 (Suc i)))"
    have step: "include_loop E opts (Suc n) d l i st
        = await (try_resolve E opts n (l ! i)) ?k st"
      unfolding include_loop_step using True by simp
    from f True have m: "has_include_step (l ! i)" "includes' (l ! i) = None"
      by (simp_all add: fresh_includes_def list_all_length)
    from n have e: "enough opts n st" by (simp add: enough_def)
    show ?thesis
    proof (cases rule: await_cases [of "try_resolve E opts n (l ! i)" st ?k])
      case (OutOfFuel st1)
      with try_resolve_lazy(1) [OF assms m e OutOfFuel(1)] show ?thesis by simp
    next
      case (Throw e1 st1)
      then show ?thesis unfolding step by simp
    next
      case (Return x st1)
      note t = try_resolve_lazy(2,3) [OF assms m e Return(1)]
      from t(1) [OF refl] n
      have n1: "2 * (maxDNS opts - queryDNSCount st1) + 3 \<le> n" by arith
      then have n2: "2 * (maxDNS opts - queryDNSCount st1) + 2 \<le> n" by simp
      note ok1 = keeps_Return(1) [OF keeps_try_resolve ok Return(1)]
      show ?thesis
      proof (cases x)
        case None
        with B [OF f ok1 n2, of "Suc i"] show ?thesis unfolding step Return(2) by simp
      next
        case (Some m1)
        let ?k2 = "\<lambda>(m2, l2).
            await (match_evaluated E opts m2) (\<lambda>b.
            if b then matched_result m2
            else include_loop E opts n d l2 (Suc i))"
        have k: "?k x st1 = await (search_step E opts n d l i m1) ?k2 st1"
          using Some by simp
        have rest: "fst (?k2 (m2, l2) st2) \<noteq> OutOfFuel"
          if "fresh_includes l2" "counter_ok opts st2"
            "queryDNSCount st1 \<le> queryDNSCount st2" for m2 l2 st2
        proof -
          from that(3) n2 have "2 * (maxDNS opts - queryDNSCount st2) + 2 \<le> n" by arith
          from search_rest_runs [OF B [OF that(1,2) this]] show ?thesis by simp
        qed
        have "fst (await (search_step E opts n d l i m1) ?k2 st1) \<noteq> OutOfFuel"
        proof (cases "is_include m1")
          case False
          then have "search_step E opts n d l i m1 st1 = (Return (m1, l), st1)"
            by (simp add: search_step_def return_def)
          then have "await (search_step E opts n d l i m1) ?k2 st1 = ?k2 (m1, l) st1"
            by (simp add: await_def)
          with rest [OF f ok1 order_refl, of m1] show ?thesis by simp
        next
          case inc: True
          from t(2) [OF Some [THEN arg_cong, of Return]]
          consider "includes' m1 = None"
            | incs where "includes' m1 = Some incs" "fresh incs"
            using Some by auto
          then show ?thesis
          proof cases
            case 1
            with inc have "search_step E opts n d l i m1 st1
                = (Throw (Untyped ''TypeError: mechanisms is undefined''), st1)"
              by (simp add: search_step_def throw_def)
            then show ?thesis by (simp add: await_def)
          next
            case 2
            let ?arr = "drop (Suc i) l"
            have s: "search_step E opts n d l i m1
                = await (evaluateInclude E opts n incs d ?arr) (\<lambda>ev.
                    return (set_evaluated ev m1, ?arr @ filter is_include incs))"
              using inc 2(1) by (simp add: search_step_def)
            obtain r2 st2 where e2: "evaluateInclude E opts n incs d ?arr st1 = (r2, st2)"
              by (cases "evaluateInclude E opts n incs d ?arr st1")
            from A [OF 2(2) fresh_includes_drop [OF f] ok1 n1, of "Suc i"] e2
            have nf: "r2 \<noteq> OutOfFuel" by simp
            show ?thesis
            proof (cases r2)
              case (Return ev)
              note k2 = keeps_Return [OF keeps_evaluateInclude ok1 e2 [unfolded Return]]
              from k2(2) have le: "queryDNSCount st1 \<le> queryDNSCount st2"
                by (simp add: extends_def)
              have "search_step E opts n d l i m1 st1
                  = (Return (set_evaluated ev m1, ?arr @ filter is_include incs), st2)"
                unfolding s using e2 Return by (simp add: await_def return_def)
              then have "await (search_step E opts n d l i m1) ?k2 st1
                  = ?k2 (set_evaluated ev m1, ?arr @ filter is_include incs) st2"
                by (simp add: await_def)
              with rest [OF fresh_includes_append [OF fresh_includes_drop [OF f] 2(2)] k2(1) le,
                  of "set_evaluated ev m1"]
              show ?thesis by simp
            next
              case (Throw e3)
              have "search_step E opts n d l i m1 st1 = (Throw e3, st2)"
                unfolding s using e2 Throw by (simp add: await_def)
              then show ?thesis by (simp add: await_def)
            next
              case OutOfFuel
              with nf show ?thesis by simp
            qed
          qed
        qed
        then show ?thesis unfolding step Return(2) k .
      qed
    qed
  qed
  from 1 2 show ?case by blast
qed

lemma include_count_pos: "0 < include_count m"
  by (cases m) simp

lemma include_count_includes:
  "includes' m = Some incs \<Longrightarrow>
     include_count m = Suc (includes_count (filter is_include incs))"
  by (cases m) (simp add: includes_count_def)

lemma includes_count_append [simp]:
  "includes_count (xs @ ys) = includes_count xs + includes_count ys"
  by (simp add: includes_count_def)

lemma includes_count_drop:
  "i < length l \<Longrightarrow>
     includes_count (drop i l) = include_count (l ! i) + includes_count (drop (Suc i) l)"
  by (simp add: includes_count_def Cons_nth_drop_Suc [symmetric])

lemma includes_count_drop_le: "includes_count (drop k l) \<le> includes_count l"
proof -
  have "includes_count l = includes_count (take k l) + includes_count (drop k l)"
    unfolding includes_count_append [symmetric] by simp
  then show ?thesis by simp
qed

lemma try_resolve_prefetch:
  "prefetch opts \<Longrightarrow> try_resolve E opts n m = return (Some m)"
  by (simp add: try_resolve_def)

lemma prefetch_search_runs:
  assumes "prefetch opts"
  shows "(2 * includes_count (arr @ filter is_include ms) + 2 \<le> n \<longrightarrow>
            fst (evaluateInclude E opts n ms d arr st) \<noteq> OutOfFuel)
       \<and> (2 * includes_count (drop i l) + 1 \<le> n \<longrightarrow>
            fst (include_loop E opts n d l i st) \<noteq> OutOfFuel)"
proof (induction n arbitrary: ms arr l i st)
  case 0
  show ?case by simp
next
  case (Suc n)
  have A: "fst (evaluateInclude E opts n ms d arr st) \<noteq> OutOfFuel"
    if "2 * includes_count (arr @ filter is_include ms) + 2 \<le> n" for ms arr st
    using Suc.IH [of arr ms st] that by blast
  have B: "fst (include_loop E opts n d l i st) \<noteq> OutOfFuel"
    if "2 * includes_count (drop i l) + 1 \<le> n" for l i st
    using Suc.IH [of _ _ st i l] that by blast
  have 1: "fst (evaluateInclude E opts (Suc n) ms d arr st) \<noteq> OutOfFuel"
    if n: "2 * includes_count (arr @ filter is_include ms) + 2 \<le> Suc n"
  proof -
    from n have "2 * includes_count (drop 0 (arr @ filter is_include ms)) + 1 \<le> n" by simp
    from B [OF this] show ?thesis by (simp add: Let_def return_def)
  qed
  have 2: "fst (include_loop E opts (Suc n) d l i st) \<noteq> OutOfFuel"
    if n: "2 * includes_count (drop i l) + 1 \<le> Suc n"
  proof (cases "i < length l")
    case False
    then show ?thesis by (simp add: return_def)
  next
    case True
    let ?m = "l ! i"
    let ?k2 = "\<lambda>(m2, l2).
            await (match_evaluated E opts m2) (\<lambda>b.
            if b then matched_result m2
            else include_loop E opts n d l2 (Suc i))"
    have step: "include_loop E opts (Suc n) d l i st
        = await (search_step E opts n d l i ?m) ?k2 st"
      unfolding include_loop_step try_resolve_prefetch [OF assms] using True by simp
    note c = includes_count_drop [OF True]
    have rest: "fst (?k2 (m2, l2) st2) \<noteq> OutOfFuel"
      if "includes_count (drop (Suc i) l2) < includes_count (drop i l)" for m2 l2 st2
    proof -
      from that n have "2 * includes_count (drop (Suc i) l2) + 1 \<le> n" by arith
      from search_rest_runs [OF B [OF this]] show ?thesis by simp
    qed
    have "fst (await (search_step E opts n d l i ?m) ?k2 st) \<noteq> OutOfFuel"
    proof (cases "is_include ?m")
      case False
      then have "search_step E opts n d l i ?m st = (Return (?m, l), st)"
        by (simp add: search_step_def return_def)
      then have "await (search_step E opts n d l i ?m) ?k2 st = ?k2 (?m, l) st"
        by (simp add: await_def)
      moreover have "includes_count (drop (Suc i) l) < includes_count (drop i l)"
        unfolding c using include_count_pos [of ?m] by simp
      ultimately show ?thesis using rest [of l ?m st] by simp
    next
      case inc: True
      show ?thesis
      proof (cases "includes' ?m")
        case None
        with inc have "search_step E opts n d l i ?m st
            = (Throw (Untyped ''TypeError: mechanisms is undefined''), st)"
          by (simp add: search_step_def throw_def)
        then show ?thesis by (simp add: await_def)
      next
        case (Some incs)
        let ?arr = "drop (Suc i) l"
        let ?l2 = "?arr @ filter is_include incs"
        have s: "search_step E opts n d l i ?m
            = await (evaluateInclude E opts n incs d ?arr) (\<lambda>ev.
                return (set_evaluated ev ?m, ?l2))"
          using inc Some by (simp add: search_step_def)
        have m: "includes_count ?l2 < includes_count (drop i l)"
          unfolding c include_count_includes [OF Some] by simp
        obtain r2 st2 where e2: "evaluateInclude E opts n incs d ?arr st = (r2, st2)"
          by (cases "evaluateInclude E opts n incs d ?arr st")
        from m n have "2 * includes_count ?l2 + 2 \<le> n" by arith
        from A [OF this, of st] e2 have nf: "r2 \<noteq> OutOfFuel" by simp
        show ?thesis
        proof (cases r2)
          case (Return ev)
          have "search_step E opts n d l i ?m st = (Return (set_evaluated ev ?m, ?l2), st2)"
            unfolding s using e2 Return by (simp add: await_def return_def)
          then have "await (search_step E opts n d l i ?m) ?k2 st
              = ?k2 (set_evaluated ev ?m, ?l2) st2"
            by (simp add: await_def)
          moreover from m includes_count_drop_le [of "Suc i" ?l2]
          have "includes_count (drop (Suc i) ?l2) < includes_count (drop i l)" by simp
          ultimately show ?thesis using rest [of ?l2 "set_evaluated ev ?m" st2] by simp
        next
          case (Throw e3)
          have "search_step E opts n d l i ?m st = (Throw e3, st2)"
            unfolding s using e2 Throw by (simp add: await_def)
          then show ?thesis by (simp add: await_def)
        next
          case OutOfFuel
          with nf show ?thesis by simp
        qed
      qed
    qed
    then show ?thesis unfolding step .
  qed
  from 1 2 show ?case by blast
qed

text \<open>With prefetch, every include of a resolved list has cost a lookup.\<close>

lemma include_count_set_includes:
  "include_count (set_includes incs m) = Suc (includes_count (filter is_include incs))"
  by (rule include_count_includes) simp

lemma is_include_set_includes [simp]: "is_include (set_includes incs m) = is_include m"
  by (simp add: is_include_def)

lemma prefetch_step_cost:
  assumes "prefetch opts"
    and IH: "\<forall>h rr st ms st'. resolveSPF E opts n h rr st = (Return ms, st') \<longrightarrow>
          queryDNSCount st + 1 + includes_count (filter is_include ms) \<le> queryDNSCount st'"
    and m2: "is_include m2 \<longrightarrow> has_include_step m2"
    and r: "(if prefetch opts \<and> resolve m2 \<noteq> None then run_resolve E opts n m2 else return m2) st
          = (Return m3, st')"
  shows "queryDNSCount st + includes_count (filter is_include [m3]) \<le> queryDNSCount st'"
proof (cases "is_include m2")
  case True
  with m2 have h: "has_include_step m2" by simp
  then have "resolve m2 \<noteq> None" by (auto simp: has_include_step_def split: option.splits)
  with r assms(1) have "run_resolve E opts n m2 st = (Return m3, st')" by simp
  from run_resolve_include [OF h this] obtain h' rr' incs
    where 1: "resolveSPF E opts n h' rr' st = (Return incs, st')"
      and 2: "m3 = set_includes incs m2"
    by blast
  from IH 1 True show ?thesis
    unfolding 2 by (simp add: includes_count_def include_count_set_includes [unfolded includes_count_def])
next
  case False
  have t: "mtype m3 = mtype m2"
    using r returnsD [OF returns_run_resolve, of E opts n m2 st m3 st']
    by (auto simp: return_def split: if_splits)
  have "queryDNSCount st \<le> queryDNSCount st'"
    using r run_resolve_mono [OF resolveSPF_mono, of st E opts n m2]
    by (auto simp: return_def split: if_splits)
  with False t show ?thesis by (simp add: is_include_def includes_count_def)
qed

lemma resolve_loop_cost:
  assumes "prefetch opts"
    and IH: "\<forall>h rr st ms st'. resolveSPF E opts n h rr st = (Return ms, st') \<longrightarrow>
          queryDNSCount st + 1 + includes_count (filter is_include ms) \<le> queryDNSCount st'"
  shows "resolve_loop E opts n h rr c ps acc st = (Return ms, st') \<Longrightarrow>
     queryDNSCount st + includes_count (filter is_include ms)
       \<le> queryDNSCount st' + includes_count (filter is_include acc)"
proof (induction ps arbitrary: acc st)
  case Nil
  then show ?case by (simp add: return_def)
next
  case (Cons p ps)
  show ?case
  proof (cases "is_redirect p")
    case True
    show ?thesis
    proof (cases c)
      case True
      with Cons.prems \<open>is_redirect p\<close> have "resolve_loop E opts n h rr c ps acc st = (Return ms, st')"
        by (simp add: resolve_loop_redirect)
      then show ?thesis by (rule Cons.IH)
    next
      case False
      with Cons.prems \<open>is_redirect p\<close>
      have "await (resolveSPF E opts n (pvalue p) rr)
             (\<lambda>rs. resolve_loop E opts n h rr c ps (acc @ rs)) st = (Return ms, st')"
        by (simp add: resolve_loop_redirect)
      then obtain rs st1 where 1: "resolveSPF E opts n (pvalue p) rr st = (Return rs, st1)"
        and 2: "resolve_loop E opts n h rr c ps (acc @ rs) st1 = (Return ms, st')"
        by (rule await_ReturnE)
      from IH 1 have "queryDNSCount st + 1 + includes_count (filter is_include rs)
          \<le> queryDNSCount st1"
        by blast
      with Cons.IH [OF 2] show ?thesis by simp
    qed
  next
    case False
    from Cons.prems have "await (prepare E h rr p) (\<lambda>m2.
       await (if prefetch opts \<and> resolve m2 \<noteq> None
              then run_resolve E opts n m2 else return m2) (\<lambda>m3.
       if is_all m3 then return (acc @ [m3])
       else resolve_loop E opts n h rr c ps (acc @ [m3]))) st = (Return ms, st')"
      unfolding resolve_loop_mechanism [OF False] .
    then obtain m2 st1 where 1: "prepare E h rr p st = (Return m2, st1)"
      and r1: "await (if prefetch opts \<and> resolve m2 \<noteq> None
              then run_resolve E opts n m2 else return m2) (\<lambda>m3.
       if is_all m3 then return (acc @ [m3])
       else resolve_loop E opts n h rr c ps (acc @ [m3])) st1 = (Return ms, st')"
      by (rule await_ReturnE)
    from r1 obtain m3 st2 where 2: "(if prefetch opts \<and> resolve m2 \<noteq> None
              then run_resolve E opts n m2 else return m2) st1 = (Return m3, st2)"
      and 3: "(if is_all m3 then return (acc @ [m3])
       else resolve_loop E opts n h rr c ps (acc @ [m3])) st2 = (Return ms, st')"
      by (rule await_ReturnE)
    from plainD [OF plain_prepare, of E h rr p st] 1
    have a: "queryDNSCount st \<le> queryDNSCount st1" by simp
    from returnsD [OF returns_prepare_step 1] have "is_include m2 \<longrightarrow> has_include_step m2"
      by simp
    note b = prefetch_step_cost [OF assms(1) IH this 2]
    show ?thesis
    proof (cases "is_all m3")
      case True
      with 3 have "ms = acc @ [m3]" "st' = st2" by (simp_all add: return_def)
      with a b show ?thesis by simp
    next
      case False
      with 3 have "resolve_loop E opts n h rr c ps (acc @ [m3]) st2 = (Return ms, st')" by simp
      from Cons.IH [OF this] a b show ?thesis by simp
    qed
  qed
qed

lemma resolveSPF_cost:
  assumes "prefetch opts"
  shows "resolveSPF E opts n h rr st = (Return ms, st') \<Longrightarrow>
          queryDNSCount st + 1 + includes_count (filter is_include ms) \<le> queryDNSCount st'"
proof (induction n arbitrary: h rr st ms st')
  case 0
  then show ?case by simp
next
  case (Suc n)
  from Suc.prems obtain ps st1 where 1: "fetch_policy E opts h st = (Return ps, st1)"
    and 2: "resolve_loop E opts n h rr (has_catchAll ps) ps [] st1 = (Return ms, st')"
    unfolding resolveSPF.simps by (rule await_ReturnE)
  have "queryDNSCount st1 + includes_count (filter is_include ms)
      \<le> queryDNSCount st' + includes_count (filter is_include [])"
  proof (rule resolve_loop_cost [OF assms _ 2])
    show "\<forall>h rr st ms st'. resolveSPF E opts n h rr st = (Return ms, st') \<longrightarrow>
          queryDNSCount st + 1 + includes_count (filter is_include ms) \<le> queryDNSCount st'"
      using Suc.IH by blast
  qed
  with spendsD [OF spends_fetch_policy 1]
  show ?case by (simp add: includes_count_def)
qed

lemma checkInclude_total:
  assumes "counter_ok opts st" and "2 * maxDNS opts + 3 \<le> n"
  shows "\<exists>res st'. checkInclude E opts n domain required st = (Return res, st')"
proof (cases "tld_isValid E domain")
  case False
  then show ?thesis by (simp add: checkInclude_def return_def)
next
  case True
  define inner where "inner = await (getMechanisms E opts n domain A)
     (\<lambda>ms. evaluateInclude E opts n ms required [])"
  have c: "checkInclude E opts n domain required st = catch inner to_result st"
    using True by (simp add: checkInclude_def inner_def)
  from assms(2) have e: "enough opts n st" by (simp add: enough_def)
  have nf: "fst (inner st) \<noteq> OutOfFuel"
  proof (cases rule: await_cases [of "getMechanisms E opts n domain A" st
      "\<lambda>ms. evaluateInclude E opts n ms required []"])
    case (Return ms st1)
    from getMechanisms_Return [OF Return(1)]
    have rs: "resolveSPF E opts n domain A st = (Return ms, st1)" .
    note ok1 = keeps_Return(1) [OF keeps_getMechanisms assms(1) Return(1)]
    then have le: "queryDNSCount st1 \<le> maxDNS opts" by (simp add: counter_ok_def)
    have "fst (evaluateInclude E opts n ms required [] st1) \<noteq> OutOfFuel"
    proof (cases "prefetch opts")
      case True
      from resolveSPF_cost [OF True rs] le assms(2)
      have "2 * includes_count ([] @ filter is_include ms) + 2 \<le> n" by simp
      with prefetch_search_runs [OF True] show ?thesis by blast
    next
      case False
      from returnsD [OF resolveSPF_fresh [OF False] rs] have f: "fresh ms" .
      have "fresh_includes []" by (simp add: fresh_includes_def)
      moreover from assms(2) have "2 * (maxDNS opts - queryDNSCount st1) + 3 \<le> n" by simp
      ultimately show ?thesis
        using lazy_search_runs [OF False] f ok1 by blast
    qed
    then show ?thesis unfolding inner_def Return(2) .
  next
    case (Throw e1 st1)
    then show ?thesis unfolding inner_def by simp
  next
    case (OutOfFuel st1)
    with runs_getMechanisms [OF e, of E domain A] show ?thesis by (simp add: runs_def)
  qed
  show ?thesis
  proof (cases rule: catch_cases [of inner st to_result])
    case (Return x st1)
    then show ?thesis unfolding c by simp
  next
    case (Throw e1 st1)
    then show ?thesis unfolding c
      by (cases e1) (simp_all add: to_result_def return_def)
  next
    case (OutOfFuel st1)
    with nf show ?thesis by simp
  qed
qed

subsection \<open>The one counter of all calls\<close>

lemma snd_forget [simp]: "snd (forget m st) = snd (m st)"
  by (cases "m st" rule: prod.exhaust [case_names Pair])
     (auto simp: forget_def split: outcome.splits)

lemma part_forget [simp]: "part opts (forget m0) s0 (forget m1) s1 = part opts m0 s0 m1 s1"
  by (simp add: part_def)

lemma part_here: "part opts m st m st"
  by (simp add: part_def extends_refl)

lemma part_await_first:
  assumes "keeps opts m" and "\<And>x. keeps opts (k x)" and "part opts m st m1 s1"
  shows "part opts (await m k) st m1 s1"
  unfolding part_def
proof (intro impI conjI)
  assume ok: "counter_ok opts st"
  from assms(3) ok show "counter_ok opts s1" and "extends st s1" by (simp_all add: part_def)
  from assms(3) ok have 1: "extends (snd (m1 s1)) (snd (m st))" by (simp add: part_def)
  have 2: "extends (snd (m st)) (snd (await m k st))"
  proof (cases rule: await_cases [of m st k])
    case (Return x st1)
    from keeps_Return(1) [OF assms(1) ok Return(1)]
    have "extends st1 (snd (k x st1))" by (rule keeps_extends(2) [OF assms(2)])
    then show ?thesis unfolding Return by simp
  next
    case (Throw e st1)
    then show ?thesis by (simp add: extends_refl)
  next
    case (OutOfFuel st1)
    then show ?thesis by (simp add: extends_refl)
  qed
  from 1 2 show "extends (snd (m1 s1)) (snd (await m k st))" by (rule extends_trans(1))
qed

lemma part_await_rest:
  assumes "keeps opts m" and "m st = (Return x, st1)" and "part opts (k x) st1 m1 s1"
  shows "part opts (await m k) st m1 s1"
  unfolding part_def
proof (intro impI conjI)
  assume ok: "counter_ok opts st"
  note r = keeps_Return [OF assms(1) ok assms(2)]
  from assms(3) r(1) have p: "counter_ok opts s1" "extends st1 s1"
    "extends (snd (m1 s1)) (snd (k x st1))"
    by (simp_all add: part_def)
  show "counter_ok opts s1" by (rule p(1))
  show "extends st s1" by (rule extends_trans(1) [OF r(2) p(2)])
  show "extends (snd (m1 s1)) (snd (await m k st))"
    using p(3) by (simp add: await_def assms(2))
qed

lemma part_catch:
  assumes "keeps opts m" and "\<And>e. keeps opts (h e)" and "part opts m st m1 s1"
  shows "part opts (catch m h) st m1 s1"
  unfolding part_def
proof (intro impI conjI)
  assume ok: "counter_ok opts st"
  from assms(3) ok show "counter_ok opts s1" and "extends st s1" by (simp_all add: part_def)
  from assms(3) ok have 1: "extends (snd (m1 s1)) (snd (m st))" by (simp add: part_def)
  have 2: "extends (snd (m st)) (snd (catch m h st))"
  proof (cases rule: catch_cases [of m st h])
    case (Return x st1)
    then show ?thesis by (simp add: extends_refl)
  next
    case (Throw e st1)
    from keeps_extends(1) [OF assms(1) ok] have "counter_ok opts st1"
      unfolding Throw by simp
    then have "extends st1 (snd (h e st1))" by (rule keeps_extends(2) [OF assms(2)])
    then show ?thesis unfolding Throw by simp
  next
    case (OutOfFuel st1)
    then show ?thesis by (simp add: extends_refl)
  qed
  from 1 2 show "extends (snd (m1 s1)) (snd (catch m h st))" by (rule extends_trans(1))
qed

lemma part_catch_rest:
  assumes "m st = (Return x, st1)" and "part opts m st m1 s1"
  shows "part opts (catch m h) st m1 s1"
  using assms by (simp add: part_def catch_def)

lemma keeps_parse_answer:
  "keeps opts (case x of Inl msg \<Rightarrow> throw (Untyped msg) | Inr parsed \<Rightarrow> check_parsed parsed)"
  by (cases x) (auto intro!: keeps_rules keeps_check_parsed)

lemma keeps_exchanges_answer:
  "keeps opts (case x of
         Exchanges es \<Rightarrow>
           if maxDNS opts \<le> length es then
             throw_result PermError ''Limit of DNS lookups reached when processing MX mechanism''
           else
             await (resolve_exchanges E opts rr es) (\<lambda>xs.
             return (sort_key priority xs))
       | _ \<Rightarrow> throw (Untyped ''exchange of a record that is not an MX record''))"
  by (cases x) (auto intro!: keeps_rules keeps_resolve_exchanges)

lemma keeps_getMechanisms_handler:
  "keeps opts (case e of Typed r \<Rightarrow> throw e | Untyped msg \<Rightarrow> throw_result TempError msg)"
  by (cases e) (auto intro!: keeps_rules)

lemma keeps_getMechanisms_try:
  "keeps opts (catch (resolveSPF E opts n domain rr)
              (\<lambda>err. case err of
                 Typed r \<Rightarrow> throw err
               | Untyped msg \<Rightarrow> throw_result TempError msg))"
  by (intro keeps_catch keeps_resolveSPF keeps_getMechanisms_handler) simp

lemma keeps_to_result: "keeps opts (to_result e)"
  unfolding to_result_def by (cases e) (auto intro!: keeps_rules)

lemma keeps_try_handler:
  "keeps opts (case e of
             Typed r \<Rightarrow> if result r = SPF_None then return None else throw e
           | Untyped msg \<Rightarrow> return (Some m))"
  by (cases e) (auto intro!: keeps_rules)

lemma keeps_search_rest:
  "keeps opts (case x of (m2, l2) \<Rightarrow>
            await (match_evaluated E opts m2) (\<lambda>b.
            if b then matched_result m2
            else include_loop E opts n d l2 (Suc i)))"
  by (cases x)
     (auto intro!: keeps_rules keeps_match_evaluated keeps_matched_result keeps_include_loop)

lemma keeps_try_rest:
  "keeps opts (case r of
          None \<Rightarrow> include_loop E opts n d l (Suc i)
        | Some m1 \<Rightarrow>
            await (search_step E opts n d l i m1) (\<lambda>(m2, l2).
            await (match_evaluated E opts m2) (\<lambda>b.
            if b then matched_result m2
            else include_loop E opts n d l2 (Suc i))))"
  by (cases r)
     (simp_all add: keeps_include_loop
        keeps_await [OF keeps_search_step [OF keeps_evaluateInclude] keeps_search_rest])

lemmas keeps_all =
  keeps_rules keeps_resolve_exchanges keeps_resolveMX keeps_fetch_policy keeps_prepare
  keeps_run_resolve keeps_resolve_loop keeps_resolveSPF keeps_match keeps_matched_result
  keeps_lazy_resolve keeps_evaluate keeps_include_step keeps_getMechanisms
  keeps_getMechanisms_try keeps_getMechanisms_handler keeps_to_result keeps_try_resolve
  keeps_try_handler keeps_match_evaluated keeps_evaluateInclude keeps_include_loop
  keeps_search_step keeps_search_rest keeps_try_rest keeps_parse_answer
  keeps_exchanges_answer

lemma check_valid:
  assumes "ip_isValid E ip" and "tld_isValid E d"
  shows "check E opts n d ip =
     catch (await (getMechanisms E opts n d (if fst (ip_parse E ip) = IPv4 then A else AAAA))
              (\<lambda>ms. evaluate E opts n ms (ip_parse E ip))) to_result"
  using assms by (simp add: check_def Let_def)

lemma checkInclude_valid:
  assumes "tld_isValid E d"
  shows "checkInclude E opts n d required =
     catch (await (getMechanisms E opts n d A)
              (\<lambda>ms. evaluateInclude E opts n ms required [])) to_result"
  using assms by (simp add: checkInclude_def)

lemma try_resolve_guarded:
  assumes "\<not> prefetch opts" and "resolve m \<noteq> None"
  shows "try_resolve E opts n m =
     catch (await (run_resolve E opts n m) (\<lambda>m1. return (Some m1)))
       (\<lambda>err. case err of
          Typed r \<Rightarrow> if result r = SPF_None then return None else throw err
        | Untyped msg \<Rightarrow> return (Some m))"
  unfolding try_resolve_def by (simp only: assms simp_thms if_True)

lemma sub_part:
  assumes "sub E opts g c0 s0 c1 s1"
  shows "part opts (exec E opts c0) s0 (exec E opts c1) s1"
  using assms
proof (induction rule: sub.induct)
  case check_getMechanisms
  show ?case
    unfolding exec.simps part_forget check_valid [OF check_getMechanisms.hyps(1,2)]
      check_getMechanisms.hyps(3)
    by (intro part_catch part_await_first keeps_all part_here)
next
  case check_evaluate
  show ?case
    unfolding exec.simps part_forget check_valid [OF check_evaluate.hyps(1,2)]
    by (rule part_catch, (intro keeps_all)+,
        rule part_await_rest [OF keeps_getMechanisms
               check_evaluate.hyps(4) [unfolded check_evaluate.hyps(3)]],
        rule part_here)
next
  case checkInclude_getMechanisms
  show ?case
    unfolding exec.simps part_forget checkInclude_valid [OF checkInclude_getMechanisms.hyps]
    by (intro part_catch part_await_first keeps_all part_here)
next
  case checkInclude_evaluateInclude
  show ?case
    unfolding exec.simps part_forget
      checkInclude_valid [OF checkInclude_evaluateInclude.hyps(1)]
    by (rule part_catch, (intro keeps_all)+,
        rule part_await_rest [OF keeps_getMechanisms checkInclude_evaluateInclude.hyps(2)],
        rule part_here)
next
  case getMechanisms_resolveSPF
  show ?case
    unfolding exec.simps part_forget getMechanisms_def
    by (intro part_await_first part_catch keeps_all part_here)
next
  case resolveSPF_fetch_policy
  show ?case
    unfolding exec.simps part_forget resolveSPF.simps
    by (intro part_await_first keeps_all part_here)
next
  case resolveSPF_resolve_loop
  show ?case
    unfolding exec.simps part_forget resolveSPF.simps
    by (rule part_await_rest [OF keeps_fetch_policy resolveSPF_resolve_loop.hyps])
       (rule part_here)
next
  case fetch_policy_resolveDNS
  show ?case
    unfolding exec.simps part_forget fetch_policy_def Let_def
    by (intro part_await_first keeps_all part_here)
next
  case redirect_resolveSPF
  show ?case
    unfolding exec.simps part_forget resolve_loop_redirect [OF redirect_resolveSPF.hyps(1)]
    using redirect_resolveSPF.hyps(2)
    by (simp add: part_await_first keeps_all part_here)
next
  case redirect_next
  show ?case
    unfolding exec.simps part_forget resolve_loop_redirect [OF redirect_next.hyps(1)]
    using redirect_next.hyps(2)
    by (simp add: part_await_rest [OF keeps_resolveSPF redirect_next.hyps(3)] part_here)
next
  case redirect_skipped
  show ?case
    unfolding exec.simps part_forget resolve_loop_redirect [OF redirect_skipped.hyps(1)]
    using redirect_skipped.hyps(2) by (simp add: part_here)
next
  case resolve_loop_prepare
  show ?case
    unfolding exec.simps part_forget resolve_loop_mechanism [OF resolve_loop_prepare.hyps]
    by (intro part_await_first keeps_all part_here)
next
  case resolve_loop_prefetch
  show ?case
    unfolding exec.simps part_forget resolve_loop_mechanism [OF resolve_loop_prefetch.hyps(1)]
    apply (rule part_await_rest [OF keeps_prepare resolve_loop_prefetch.hyps(2)])
    apply (rule part_await_first)
      apply (intro keeps_all)
     apply (intro keeps_all)
    using resolve_loop_prefetch.hyps(3,4) apply (simp add: part_here)
    done
next
  case resolve_loop_next
  show ?case
    unfolding exec.simps part_forget resolve_loop_mechanism [OF resolve_loop_next.hyps(1)]
    apply (rule part_await_rest [OF keeps_prepare resolve_loop_next.hyps(2)])
    apply (rule part_await_rest)
      apply (intro keeps_all)
     apply (rule resolve_loop_next.hyps(3))
    using resolve_loop_next.hyps(4) apply (simp add: part_here)
    done
next
  case resolve_a
  show ?case
    unfolding exec.simps part_forget run_resolve.simps resolve_a.hyps option.case resolver.case
    by (intro part_await_first keeps_all part_here)
next
  case resolve_mx
  show ?case
    unfolding exec.simps part_forget run_resolve.simps resolve_mx.hyps option.case resolver.case
    by (intro part_await_first keeps_all part_here)
next
  case resolve_include
  show ?case
    unfolding exec.simps part_forget run_resolve.simps resolve_include.hyps option.case
      resolver.case
    by (intro part_await_first keeps_all part_here)
next
  case resolveMX_resolveDNS
  show ?case
    unfolding exec.simps part_forget resolveMX_def
    by (intro part_await_first keeps_all part_here)
next
  case resolveMX_exchanges
  show ?case
    unfolding exec.simps part_forget resolveMX_def
    apply (rule part_await_rest [OF keeps_resolveDNS resolveMX_exchanges.hyps(1)])
    using resolveMX_exchanges.hyps(2)
    apply (simp add: part_await_first keeps_all part_here)
    done
next
  case exchanges_resolveDNS
  show ?case
    unfolding exec.simps part_forget resolve_exchanges.simps
    by (intro part_await_first keeps_all part_here)
next
  case exchanges_next
  show ?case
    unfolding exec.simps part_forget resolve_exchanges.simps
    by (rule part_await_rest [OF keeps_resolveDNS exchanges_next.hyps])
       (intro part_await_first keeps_all part_here)
next
  case evaluate_resolve
  have "lazy_resolve E opts n m = run_resolve E opts n m"
    if "\<not> prefetch opts" "resolve m \<noteq> None" for n m
    using that by (simp add: lazy_resolve_def)
  note l = this [OF evaluate_resolve.hyps]
  show ?case
    unfolding exec.simps part_forget evaluate_step l
    by (intro part_await_first keeps_all part_here)
next
  case evaluate_include
  show ?case
    unfolding exec.simps part_forget evaluate_step
    apply (rule part_await_rest [OF keeps_lazy_resolve evaluate_include.hyps(1)])
    apply (rule part_await_first)
      apply (intro keeps_all)
     apply (intro keeps_all)
    unfolding include_step_def
    using evaluate_include.hyps(2,3)
    apply (simp add: part_await_first keeps_all part_here)
    done
next
  case evaluate_match
  show ?case
    unfolding exec.simps part_forget evaluate_step
    apply (rule part_await_rest [OF keeps_lazy_resolve evaluate_match.hyps(1)])
    apply (rule part_await_rest [OF keeps_include_step evaluate_match.hyps(2)])
    apply (intro part_await_first keeps_all part_here)
    done
next
  case evaluate_matched
  show ?case
    unfolding exec.simps part_forget evaluate_step
    apply (rule part_await_rest [OF keeps_lazy_resolve evaluate_matched.hyps(1)])
    apply (rule part_await_rest [OF keeps_include_step evaluate_matched.hyps(2)])
    apply (rule part_await_rest [OF keeps_match evaluate_matched.hyps(3)])
    apply (simp add: part_here)
    done
next
  case evaluate_next
  show ?case
    unfolding exec.simps part_forget evaluate_step
    apply (rule part_await_rest [OF keeps_lazy_resolve evaluate_next.hyps(1)])
    apply (rule part_await_rest [OF keeps_include_step evaluate_next.hyps(2)])
    apply (rule part_await_rest [OF keeps_match evaluate_next.hyps(3)])
    apply (simp add: part_here)
    done
next
  case evaluateInclude_loop
  show ?case
    unfolding exec.simps part_forget evaluateInclude.simps Let_def
    using evaluateInclude_loop.hyps by (auto simp: part_here)
next
  case include_loop_try
  show ?case
    unfolding exec.simps part_forget include_loop_step
    using include_loop_try.hyps by (simp add: part_await_first keeps_all part_here)
next
  case include_loop_skip
  show ?case
    unfolding exec.simps part_forget include_loop_step
    using include_loop_skip.hyps(1)
    by (simp add: part_await_rest [OF keeps_try_resolve include_loop_skip.hyps(2)] part_here)
next
  case include_loop_search
  have "part opts (search_step E opts n d l i m1) st
          (evaluateInclude E opts n incs d (drop (Suc i) l)) st"
    if "is_include m1" "includes' m1 = Some incs" for n d l i m1 st incs
    unfolding search_step_def using that
    by (simp add: part_await_first keeps_all part_here)
  note s = this [OF include_loop_search.hyps(3,4)]
  show ?case
    unfolding exec.simps part_forget include_loop_step
    using include_loop_search.hyps(1)
    by (simp add: part_await_rest [OF keeps_try_resolve include_loop_search.hyps(2)]
          part_await_first keeps_all s)
next
  case include_loop_match
  show ?case
    unfolding exec.simps part_forget include_loop_step
    using include_loop_match.hyps(1)
    by (simp add: part_await_rest [OF keeps_try_resolve include_loop_match.hyps(2)]
          part_await_rest [OF keeps_search_step [OF keeps_evaluateInclude]
            include_loop_match.hyps(3)]
          part_await_first keeps_all part_here)
next
  case include_loop_matched
  show ?case
    unfolding exec.simps part_forget include_loop_step
    using include_loop_matched.hyps(1)
    by (simp add: part_await_rest [OF keeps_try_resolve include_loop_matched.hyps(2)]
          part_await_rest [OF keeps_search_step [OF keeps_evaluateInclude]
            include_loop_matched.hyps(3)]
          part_await_rest [OF keeps_match_evaluated include_loop_matched.hyps(4)]
          part_here)
next
  case include_loop_next
  show ?case
    unfolding exec.simps part_forget include_loop_step
    using include_loop_next.hyps(1)
    by (simp add: part_await_rest [OF keeps_try_resolve include_loop_next.hyps(2)]
          part_await_rest [OF keeps_search_step [OF keeps_evaluateInclude]
            include_loop_next.hyps(3)]
          part_await_rest [OF keeps_match_evaluated include_loop_next.hyps(4)]
          part_here)
next
  case try_resolve_resolve
  show ?case
    unfolding exec.simps part_forget try_resolve_guarded [OF try_resolve_resolve.hyps]
    by (intro part_catch part_await_first keeps_all part_here)
next
  case match_evaluated_match
  show ?case
    unfolding exec.simps part_forget match_evaluated_def
    using match_evaluated_match.hyps by (simp add: part_here)
qed

lemma part_trans:
  assumes "part opts m0 s0 m1 s1" and "part opts m1 s1 m2 s2"
  shows "part opts m0 s0 m2 s2"
  using assms unfolding part_def by (blast intro: extends_trans(1))

lemma inside_part:
  assumes "inside E opts g c0 s0 c s"
  shows "part opts (exec E opts c0) s0 (exec E opts c) s"
  using assms
proof (induction rule: inside.induct)
  case here
  show ?case by (rule part_here)
next
  case step
  from sub_part [OF step.hyps(1)] step.IH show ?case by (rule part_trans)
qed

subsection \<open>What a call throws\<close>

lemma forget_Throw [simp]: "forget m st = (Throw e, s') \<longleftrightarrow> m st = (Throw e, s')"
  by (cases "m st" rule: prod.exhaust [case_names Pair])
     (auto simp: forget_def split: outcome.splits)

lemma passes_forget [simp]: "passes (forget m0) s0 (forget m1) s1 = passes m0 s0 m1 s1"
  by (simp add: passes_def)

lemma passes_here: "passes m st m st"
  by (simp add: passes_def)

lemma passes_first:
  assumes "passes m st m1 s1"
  shows "passes (await m k) st m1 s1"
  using assms by (simp add: passes_def await_def)

lemma passes_rest:
  assumes "m st = (Return x, st1)" and "passes (k x) st1 m1 s1"
  shows "passes (await m k) st m1 s1"
  using assms by (simp add: passes_def await_def)

lemma passes_trans:
  assumes "passes m0 s0 m1 s1" and "passes m1 s1 m2 s2"
  shows "passes m0 s0 m2 s2"
  using assms by (simp add: passes_def)

lemma sub_passes:
  assumes "sub E opts g c0 s0 c1 s1" and "\<not> g"
  shows "passes (exec E opts c0) s0 (exec E opts c1) s1"
  using assms
proof (induction rule: sub.induct)
  case check_getMechanisms
  then show ?case by simp
next
  case check_evaluate
  then show ?case by simp
next
  case checkInclude_getMechanisms
  then show ?case by simp
next
  case checkInclude_evaluateInclude
  then show ?case by simp
next
  case getMechanisms_resolveSPF
  then show ?case by simp
next
  case resolveSPF_fetch_policy
  show ?case
    unfolding exec.simps passes_forget resolveSPF.simps
    by (intro passes_first passes_here)
next
  case resolveSPF_resolve_loop
  show ?case
    unfolding exec.simps passes_forget resolveSPF.simps
    by (rule passes_rest, rule resolveSPF_resolve_loop.hyps) (rule passes_here)
next
  case fetch_policy_resolveDNS
  show ?case
    unfolding exec.simps passes_forget fetch_policy_def Let_def
    by (intro passes_first passes_here)
next
  case redirect_resolveSPF
  show ?case
    unfolding exec.simps passes_forget resolve_loop_redirect [OF redirect_resolveSPF.hyps(1)]
    using redirect_resolveSPF.hyps(2)
    by (simp add: passes_first passes_here)
next
  case redirect_next
  show ?case
    unfolding exec.simps passes_forget resolve_loop_redirect [OF redirect_next.hyps(1)]
    apply (simp only: redirect_next.hyps(2) not_False_eq_True if_True)
    apply (rule passes_rest, rule redirect_next.hyps(3))
    apply (rule passes_here)
    done
next
  case redirect_skipped
  show ?case
    unfolding exec.simps passes_forget resolve_loop_redirect [OF redirect_skipped.hyps(1)]
    using redirect_skipped.hyps(2) by (simp add: passes_here)
next
  case resolve_loop_prepare
  show ?case
    unfolding exec.simps passes_forget resolve_loop_mechanism [OF resolve_loop_prepare.hyps]
    by (intro passes_first passes_here)
next
  case resolve_loop_prefetch
  show ?case
    unfolding exec.simps passes_forget resolve_loop_mechanism [OF resolve_loop_prefetch.hyps(1)]
    apply (rule passes_rest, rule resolve_loop_prefetch.hyps(2))
    apply (rule passes_first)
    using resolve_loop_prefetch.hyps(3,4) apply (simp add: passes_here)
    done
next
  case resolve_loop_next
  show ?case
    unfolding exec.simps passes_forget resolve_loop_mechanism [OF resolve_loop_next.hyps(1)]
    apply (rule passes_rest, rule resolve_loop_next.hyps(2))
    apply (rule passes_rest)
     apply (rule resolve_loop_next.hyps(3))
    using resolve_loop_next.hyps(4) apply (simp add: passes_here)
    done
next
  case resolve_a
  show ?case
    unfolding exec.simps passes_forget run_resolve.simps resolve_a.hyps option.case
      resolver.case
    by (intro passes_first passes_here)
next
  case resolve_mx
  show ?case
    unfolding exec.simps passes_forget run_resolve.simps resolve_mx.hyps option.case
      resolver.case
    by (intro passes_first passes_here)
next
  case resolve_include
  show ?case
    unfolding exec.simps passes_forget run_resolve.simps resolve_include.hyps option.case
      resolver.case
    by (intro passes_first passes_here)
next
  case resolveMX_resolveDNS
  show ?case
    unfolding exec.simps passes_forget resolveMX_def
    by (intro passes_first passes_here)
next
  case resolveMX_exchanges
  show ?case
    unfolding exec.simps passes_forget resolveMX_def
    apply (rule passes_rest, rule resolveMX_exchanges.hyps(1))
    using resolveMX_exchanges.hyps(2)
    apply (simp add: passes_first passes_here)
    done
next
  case exchanges_resolveDNS
  show ?case
    unfolding exec.simps passes_forget resolve_exchanges.simps
    by (intro passes_first passes_here)
next
  case exchanges_next
  show ?case
    unfolding exec.simps passes_forget resolve_exchanges.simps
    by (rule passes_rest, rule exchanges_next.hyps) (intro passes_first passes_here)
next
  case evaluate_resolve
  have "lazy_resolve E opts n m = run_resolve E opts n m"
    if "\<not> prefetch opts" "resolve m \<noteq> None" for n m
    using that by (simp add: lazy_resolve_def)
  note l = this [OF evaluate_resolve.hyps]
  show ?case
    unfolding exec.simps passes_forget evaluate_step l
    by (intro passes_first passes_here)
next
  case evaluate_include
  show ?case
    unfolding exec.simps passes_forget evaluate_step
    apply (rule passes_rest, rule evaluate_include.hyps(1))
    apply (rule passes_first)
    unfolding include_step_def
    using evaluate_include.hyps(2,3)
    apply (simp add: passes_first passes_here)
    done
next
  case evaluate_match
  show ?case
    unfolding exec.simps passes_forget evaluate_step
    apply (rule passes_rest, rule evaluate_match.hyps(1))
    apply (rule passes_rest, rule evaluate_match.hyps(2))
    apply (intro passes_first passes_here)
    done
next
  case evaluate_matched
  show ?case
    unfolding exec.simps passes_forget evaluate_step
    apply (rule passes_rest, rule evaluate_matched.hyps(1))
    apply (rule passes_rest, rule evaluate_matched.hyps(2))
    apply (rule passes_rest, rule evaluate_matched.hyps(3))
    apply (simp add: passes_here)
    done
next
  case evaluate_next
  show ?case
    unfolding exec.simps passes_forget evaluate_step
    apply (rule passes_rest, rule evaluate_next.hyps(1))
    apply (rule passes_rest, rule evaluate_next.hyps(2))
    apply (rule passes_rest, rule evaluate_next.hyps(3))
    apply (simp add: passes_here)
    done
next
  case evaluateInclude_loop
  show ?case
    unfolding exec.simps passes_forget evaluateInclude.simps Let_def
    using evaluateInclude_loop.hyps by (auto simp: passes_here)
next
  case include_loop_try
  show ?case
    unfolding exec.simps passes_forget include_loop_step
    using include_loop_try.hyps by (simp add: passes_first passes_here)
next
  case include_loop_skip
  show ?case
    unfolding exec.simps passes_forget include_loop_step
    apply (simp only: include_loop_skip.hyps(1) not_True_eq_False if_False)
    apply (rule passes_rest, rule include_loop_skip.hyps(2))
    apply (simp add: passes_here)
    done
next
  case include_loop_search
  have "passes (search_step E opts n d l i m1) st
          (evaluateInclude E opts n incs d (drop (Suc i) l)) st"
    if "is_include m1" "includes' m1 = Some incs" for n d l i m1 st incs
    unfolding search_step_def using that
    by (simp add: passes_first passes_here)
  note s = this [OF include_loop_search.hyps(3,4)]
  show ?case
    unfolding exec.simps passes_forget include_loop_step
    apply (simp only: include_loop_search.hyps(1) not_True_eq_False if_False)
    apply (rule passes_rest, rule include_loop_search.hyps(2))
    apply (simp add: passes_first s)
    done
next
  case include_loop_match
  show ?case
    unfolding exec.simps passes_forget include_loop_step
    apply (simp only: include_loop_match.hyps(1) not_True_eq_False if_False)
    apply (rule passes_rest, rule include_loop_match.hyps(2))
    apply (simp only: option.case)
    apply (rule passes_rest, rule include_loop_match.hyps(3))
    apply (simp add: passes_first passes_here)
    done
next
  case include_loop_matched
  show ?case
    unfolding exec.simps passes_forget include_loop_step
    apply (simp only: include_loop_matched.hyps(1) not_True_eq_False if_False)
    apply (rule passes_rest, rule include_loop_matched.hyps(2))
    apply (simp only: option.case)
    apply (rule passes_rest, rule include_loop_matched.hyps(3))
    apply (simp only: prod.case)
    apply (rule passes_rest, rule include_loop_matched.hyps(4))
    apply (simp add: passes_here)
    done
next
  case include_loop_next
  show ?case
    unfolding exec.simps passes_forget include_loop_step
    apply (simp only: include_loop_next.hyps(1) not_True_eq_False if_False)
    apply (rule passes_rest, rule include_loop_next.hyps(2))
    apply (simp only: option.case)
    apply (rule passes_rest, rule include_loop_next.hyps(3))
    apply (simp only: prod.case)
    apply (rule passes_rest, rule include_loop_next.hyps(4))
    apply (simp add: passes_here)
    done
next
  case try_resolve_resolve
  then show ?case by simp
next
  case match_evaluated_match
  show ?case
    unfolding exec.simps passes_forget match_evaluated_def
    using match_evaluated_match.hyps by (simp add: passes_here)
qed

lemma inside_passes:
  assumes "inside E opts g c0 s0 c s" and "\<not> g"
  shows "passes (exec E opts c0) s0 (exec E opts c) s"
  using assms
proof (induction rule: inside.induct)
  case here
  show ?case by (rule passes_here)
next
  case (step g1 c0 st0 c1 st1 g2 c st)
  from step.prems have g: "\<not> g1" "\<not> g2" by simp_all
  from sub_passes [OF step.hyps(1) g(1)] step.IH [OF g(2)]
  show ?case by (rule passes_trans)
qed

lemma inside_throws:
  assumes "inside E opts False c0 s0 c s" and "exec E opts c s = (Throw e, s')"
  shows "exec E opts c0 s0 = (Throw e, s')"
  using inside_passes [OF assms(1)] assms(2) by (simp add: passes_def)

lemma try_resolve_untyped:
  assumes "\<not> prefetch opts" and "resolve m \<noteq> None"
    and "run_resolve E opts k m st = (Throw (Untyped msg), st')"
  shows "try_resolve E opts k m st = (Return (Some m), st')"
  using assms
  by (simp add: try_resolve_def catch_def await_def return_def)

lemma inside_step:
  assumes "sub E opts False c0 st0 c1 st1" and "inside E opts False c1 st1 c st"
  shows "inside E opts False c0 st0 c st"
  using inside.step [OF assms] by simp


lemma gone_policy:
  "resolveSPF gone_env default_options 11 ''example.com'' A SPF_new
   = (Return [mechanism_of version_term, gone_include], gone_state)"
  by code_simp

lemma gone_lookup:
  "exec gone_env default_options (Call_resolveDNS ''gone.example.com'' TXT None) gone_state
   = (Throw (Typed (new_SPFResult SPF_None ''Domain does not exists'')), gone_final)"
  by code_simp

lemma gone_version:
  "sub gone_env default_options False
     (Call_evaluate 11 [mechanism_of version_term, gone_include] (IPv4, ''127.0.0.1'')) gone_state
     (Call_evaluate 11 [gone_include] (IPv4, ''127.0.0.1'')) gone_state"
proof -
  have "sub gone_env default_options False
     (Call_evaluate (Suc 10) (mechanism_of version_term # [gone_include]) (IPv4, ''127.0.0.1''))
       gone_state
     (Call_evaluate (Suc 10) [gone_include] (IPv4, ''127.0.0.1'')) gone_state"
    by (rule sub.evaluate_next [where ?m1.0 = "mechanism_of version_term"
          and ?m2.0 = "mechanism_of version_term" and ?st1.0 = gone_state
          and ?st2.0 = gone_state])
       code_simp+
  then show ?thesis by simp
qed

lemma gone_deferred:
  "sub gone_env default_options False
     (Call_evaluate 11 [gone_include] (IPv4, ''127.0.0.1'')) gone_state
     (Call_run_resolve 10 gone_include) gone_state"
proof -
  have "sub gone_env default_options False
     (Call_evaluate (Suc 10) [gone_include] (IPv4, ''127.0.0.1'')) gone_state
     (Call_run_resolve 10 gone_include) gone_state"
    by (rule sub.evaluate_resolve) code_simp+
  then show ?thesis by simp
qed

lemma gone_included:
  "sub gone_env default_options False
     (Call_run_resolve 10 gone_include) gone_state
     (Call_resolveSPF 10 ''gone.example.com'' A) gone_state"
  by (rule sub.resolve_include) code_simp

lemma gone_fetch:
  "sub gone_env default_options False
     (Call_resolveSPF 10 ''gone.example.com'' A) gone_state
     (Call_fetch_policy ''gone.example.com'') gone_state"
proof -
  have "sub gone_env default_options False
     (Call_resolveSPF (Suc 9) ''gone.example.com'' A) gone_state
     (Call_fetch_policy ''gone.example.com'') gone_state"
    by (rule sub.resolveSPF_fetch_policy)
  then show ?thesis by simp
qed

lemma gone_inside:
  "inside gone_env default_options False
     (Call_evaluate 11 [mechanism_of version_term, gone_include] (IPv4, ''127.0.0.1'')) gone_state
     (Call_resolveDNS ''gone.example.com'' TXT None) gone_state"
  by (intro inside_step [OF gone_version] inside_step [OF gone_deferred]
        inside_step [OF gone_included] inside_step [OF gone_fetch]
        inside_step [OF sub.fetch_policy_resolveDNS] inside.here)



lemma run_counter_ok:
  assumes "counter_ok opts st"
  shows "counter_ok opts (snd (check E opts n d ip st))
         \<and> extends st (snd (check E opts n d ip st))"
    and "counter_ok opts (snd (checkInclude E opts n d required st))
         \<and> extends st (snd (checkInclude E opts n d required st))"
proof -
  obtain r st' where c: "check E opts n d ip st = (r, st')" by (cases "check E opts n d ip st")
  from check_keeps [OF assms c] steady_run(1,2) [OF assms] refused_run(1,2) [OF assms]
  show "counter_ok opts (snd (check E opts n d ip st))
         \<and> extends st (snd (check E opts n d ip st))" unfolding c by auto
  obtain r st' where c: "checkInclude E opts n d required st = (r, st')"
    by (cases "checkInclude E opts n d required st")
  from checkInclude_keeps [OF assms c] steady_run(1,2) [OF assms] refused_run(1,2) [OF assms]
  show "counter_ok opts (snd (checkInclude E opts n d required st))
         \<and> extends st (snd (checkInclude E opts n d required st))" unfolding c by auto
qed

lemma keeps_counter_ok:
  assumes "counter_ok opts st" and "keeps opts m"
  shows "counter_ok opts (snd (m st)) \<and> extends st (snd (m st))"
  using keeps_extends [OF assms(2,1)] by simp

lemma exec_counter_ok:
  assumes "counter_ok opts st"
  shows "counter_ok opts (snd (exec E opts c st)) \<and> extends st (snd (exec E opts c st))"
  by (cases c; simp only: exec.simps snd_forget;
      (rule run_counter_ok [OF assms] | rule keeps_counter_ok [OF assms]);
      intro keeps_all)


lemma loop_run:
  "check loop_env default_options 11 ''loop.example.com'' ''127.0.0.1'' SPF_new
   = (Return (new_SPFResult PermError ''Limit of DNS lookups reached''), loop_final)"
  by code_simp

lemma loop_mechanisms:
  "getMechanisms loop_env default_options 11 ''loop.example.com'' A SPF_new
   = (Return [mechanism_of version_term, loop_include], loop_state 1)"
  by code_simp

lemma loop_resolved:
  "snd (exec loop_env default_options (Call_resolveSPF 10 ''loop.example.com'' A) (loop_state 1))
   = loop_state 2"
  by code_simp

lemma loop_refused: "list_ex is_refused (added SPF_new loop_final)"
  by code_simp

lemma loop_evaluate:
  "sub loop_env default_options True
     (Call_check 11 ''loop.example.com'' ''127.0.0.1'') SPF_new
     (Call_evaluate 11 [mechanism_of version_term, loop_include] (IPv4, ''127.0.0.1''))
     (loop_state 1)"
proof -
  have a: "ip_parse loop_env ''127.0.0.1'' = (IPv4, ''127.0.0.1'')"
    by (simp add: loop_env_def fixture_env_def)
  have "sub loop_env default_options True
     (Call_check 11 ''loop.example.com'' ''127.0.0.1'') SPF_new
     (Call_evaluate 11 [mechanism_of version_term, loop_include]
        (ip_parse loop_env ''127.0.0.1'')) (loop_state 1)"
    by (rule sub.check_evaluate [where rr = A])
       (simp_all add: loop_env_def [symmetric] loop_mechanisms,
        simp_all add: loop_env_def fixture_env_def)
  then show ?thesis unfolding a .
qed

lemma loop_version:
  "sub loop_env default_options False
     (Call_evaluate 11 [mechanism_of version_term, loop_include] (IPv4, ''127.0.0.1''))
       (loop_state 1)
     (Call_evaluate 11 [loop_include] (IPv4, ''127.0.0.1'')) (loop_state 1)"
proof -
  have "sub loop_env default_options False
     (Call_evaluate (Suc 10) (mechanism_of version_term # [loop_include]) (IPv4, ''127.0.0.1''))
       (loop_state 1)
     (Call_evaluate (Suc 10) [loop_include] (IPv4, ''127.0.0.1'')) (loop_state 1)"
    by (rule sub.evaluate_next [where ?m1.0 = "mechanism_of version_term"
          and ?m2.0 = "mechanism_of version_term" and ?st1.0 = "loop_state 1"
          and ?st2.0 = "loop_state 1"])
       code_simp+
  then show ?thesis by simp
qed

lemma loop_deferred:
  "sub loop_env default_options False
     (Call_evaluate 11 [loop_include] (IPv4, ''127.0.0.1'')) (loop_state 1)
     (Call_run_resolve 10 loop_include) (loop_state 1)"
proof -
  have "sub loop_env default_options False
     (Call_evaluate (Suc 10) [loop_include] (IPv4, ''127.0.0.1'')) (loop_state 1)
     (Call_run_resolve 10 loop_include) (loop_state 1)"
    by (rule sub.evaluate_resolve) code_simp+
  then show ?thesis by simp
qed

lemma loop_included:
  "sub loop_env default_options False
     (Call_run_resolve 10 loop_include) (loop_state 1)
     (Call_resolveSPF 10 ''loop.example.com'' A) (loop_state 1)"
  by (rule sub.resolve_include) code_simp

lemma loop_inside:
  "inside loop_env default_options True
     (Call_check 11 ''loop.example.com'' ''127.0.0.1'') SPF_new
     (Call_resolveSPF 10 ''loop.example.com'' A) (loop_state 1)"
  using inside.step [OF loop_evaluate inside_step [OF loop_version
          inside_step [OF loop_deferred inside_step [OF loop_included inside.here]]]]
  by simp



end
